theory Spec2Isabelle
  imports Main "HOL-Library.Char_ord"
begin

section \<open>Tokens and the lexer state\<close>

text \<open>
  \<open>type TokenType int\<close>: the token kinds are the integer constants of the source's
  \<open>iota\<close> block, numbered from 0 in the order they are declared.
\<close>

type_synonym TokenType = nat

definition TOKEN_NUMBER :: TokenType where "TOKEN_NUMBER = 0"
definition TOKEN_STRING :: TokenType where "TOKEN_STRING = 1"
definition TOKEN_TEMPLATE_STRING :: TokenType where "TOKEN_TEMPLATE_STRING = 2"
definition TOKEN_IDENT :: TokenType where "TOKEN_IDENT = 3"
definition TOKEN_TRUE :: TokenType where "TOKEN_TRUE = 4"
definition TOKEN_FALSE :: TokenType where "TOKEN_FALSE = 5"
definition TOKEN_NIL :: TokenType where "TOKEN_NIL = 6"
definition TOKEN_AND :: TokenType where "TOKEN_AND = 7"
definition TOKEN_BREAK :: TokenType where "TOKEN_BREAK = 8"
definition TOKEN_CONTINUE :: TokenType where "TOKEN_CONTINUE = 9"
definition TOKEN_CASE :: TokenType where "TOKEN_CASE = 10"
definition TOKEN_DEFAULT :: TokenType where "TOKEN_DEFAULT = 11"
definition TOKEN_DO :: TokenType where "TOKEN_DO = 12"
definition TOKEN_ELSE :: TokenType where "TOKEN_ELSE = 13"
definition TOKEN_ELSEIF :: TokenType where "TOKEN_ELSEIF = 14"
definition TOKEN_END :: TokenType where "TOKEN_END = 15"
definition TOKEN_FOR :: TokenType where "TOKEN_FOR = 16"
definition TOKEN_FUNCTION :: TokenType where "TOKEN_FUNCTION = 17"
definition TOKEN_GLOBAL :: TokenType where "TOKEN_GLOBAL = 18"
definition TOKEN_GOTO :: TokenType where "TOKEN_GOTO = 19"
definition TOKEN_IF :: TokenType where "TOKEN_IF = 20"
definition TOKEN_IN :: TokenType where "TOKEN_IN = 21"
definition TOKEN_LOCAL :: TokenType where "TOKEN_LOCAL = 22"
definition TOKEN_NOT :: TokenType where "TOKEN_NOT = 23"
definition TOKEN_OR :: TokenType where "TOKEN_OR = 24"
definition TOKEN_REPEAT :: TokenType where "TOKEN_REPEAT = 25"
definition TOKEN_RETURN :: TokenType where "TOKEN_RETURN = 26"
definition TOKEN_SWITCH :: TokenType where "TOKEN_SWITCH = 27"
definition TOKEN_THEN :: TokenType where "TOKEN_THEN = 28"
definition TOKEN_UNTIL :: TokenType where "TOKEN_UNTIL = 29"
definition TOKEN_WHILE :: TokenType where "TOKEN_WHILE = 30"
definition TOKEN_PLUS :: TokenType where "TOKEN_PLUS = 31"
definition TOKEN_MINUS :: TokenType where "TOKEN_MINUS = 32"
definition TOKEN_STAR :: TokenType where "TOKEN_STAR = 33"
definition TOKEN_SLASH :: TokenType where "TOKEN_SLASH = 34"
definition TOKEN_PERCENT :: TokenType where "TOKEN_PERCENT = 35"
definition TOKEN_CARET :: TokenType where "TOKEN_CARET = 36"
definition TOKEN_HASH :: TokenType where "TOKEN_HASH = 37"
definition TOKEN_EQ :: TokenType where "TOKEN_EQ = 38"
definition TOKEN_NEQ :: TokenType where "TOKEN_NEQ = 39"
definition TOKEN_LT :: TokenType where "TOKEN_LT = 40"
definition TOKEN_GT :: TokenType where "TOKEN_GT = 41"
definition TOKEN_LE :: TokenType where "TOKEN_LE = 42"
definition TOKEN_GE :: TokenType where "TOKEN_GE = 43"
definition TOKEN_ASSIGN :: TokenType where "TOKEN_ASSIGN = 44"
definition TOKEN_LPAREN :: TokenType where "TOKEN_LPAREN = 45"
definition TOKEN_RPAREN :: TokenType where "TOKEN_RPAREN = 46"
definition TOKEN_LBRACE :: TokenType where "TOKEN_LBRACE = 47"
definition TOKEN_RBRACE :: TokenType where "TOKEN_RBRACE = 48"
definition TOKEN_LBRACKET :: TokenType where "TOKEN_LBRACKET = 49"
definition TOKEN_RBRACKET :: TokenType where "TOKEN_RBRACKET = 50"
definition TOKEN_SEMICOLON :: TokenType where "TOKEN_SEMICOLON = 51"
definition TOKEN_COLON :: TokenType where "TOKEN_COLON = 52"
definition TOKEN_DOUBLECOLON :: TokenType where "TOKEN_DOUBLECOLON = 53"
definition TOKEN_COMMA :: TokenType where "TOKEN_COMMA = 54"
definition TOKEN_DOT :: TokenType where "TOKEN_DOT = 55"
definition TOKEN_DOTDOT :: TokenType where "TOKEN_DOTDOT = 56"
definition TOKEN_DOTDOTDOT :: TokenType where "TOKEN_DOTDOTDOT = 57"
definition TOKEN_QUESTION_DOT :: TokenType where "TOKEN_QUESTION_DOT = 58"
definition TOKEN_DOUBLE_QUESTION :: TokenType where "TOKEN_DOUBLE_QUESTION = 59"
definition TOKEN_PLUS_ASSIGN :: TokenType where "TOKEN_PLUS_ASSIGN = 60"
definition TOKEN_MINUS_ASSIGN :: TokenType where "TOKEN_MINUS_ASSIGN = 61"
definition TOKEN_STAR_ASSIGN :: TokenType where "TOKEN_STAR_ASSIGN = 62"
definition TOKEN_SLASH_ASSIGN :: TokenType where "TOKEN_SLASH_ASSIGN = 63"
definition TOKEN_PERCENT_ASSIGN :: TokenType where "TOKEN_PERCENT_ASSIGN = 64"
definition TOKEN_DOTDOT_ASSIGN :: TokenType where "TOKEN_DOTDOT_ASSIGN = 65"
definition TOKEN_NEWLINE :: TokenType where "TOKEN_NEWLINE = 66"
definition TOKEN_EOF :: TokenType where "TOKEN_EOF = 67"
definition TOKEN_ERROR :: TokenType where "TOKEN_ERROR = 68"

lemmas token_defs =
  TOKEN_NUMBER_def TOKEN_STRING_def TOKEN_TEMPLATE_STRING_def TOKEN_IDENT_def TOKEN_TRUE_def
  TOKEN_FALSE_def TOKEN_NIL_def TOKEN_AND_def TOKEN_BREAK_def TOKEN_CONTINUE_def
  TOKEN_CASE_def TOKEN_DEFAULT_def TOKEN_DO_def TOKEN_ELSE_def TOKEN_ELSEIF_def TOKEN_END_def
  TOKEN_FOR_def TOKEN_FUNCTION_def TOKEN_GLOBAL_def TOKEN_GOTO_def TOKEN_IF_def TOKEN_IN_def
  TOKEN_LOCAL_def TOKEN_NOT_def TOKEN_OR_def TOKEN_REPEAT_def TOKEN_RETURN_def
  TOKEN_SWITCH_def TOKEN_THEN_def TOKEN_UNTIL_def TOKEN_WHILE_def TOKEN_PLUS_def
  TOKEN_MINUS_def TOKEN_STAR_def TOKEN_SLASH_def TOKEN_PERCENT_def TOKEN_CARET_def
  TOKEN_HASH_def TOKEN_EQ_def TOKEN_NEQ_def TOKEN_LT_def TOKEN_GT_def TOKEN_LE_def
  TOKEN_GE_def TOKEN_ASSIGN_def TOKEN_LPAREN_def TOKEN_RPAREN_def TOKEN_LBRACE_def
  TOKEN_RBRACE_def TOKEN_LBRACKET_def TOKEN_RBRACKET_def TOKEN_SEMICOLON_def TOKEN_COLON_def
  TOKEN_DOUBLECOLON_def TOKEN_COMMA_def TOKEN_DOT_def TOKEN_DOTDOT_def TOKEN_DOTDOTDOT_def
  TOKEN_QUESTION_DOT_def TOKEN_DOUBLE_QUESTION_def TOKEN_PLUS_ASSIGN_def
  TOKEN_MINUS_ASSIGN_def TOKEN_STAR_ASSIGN_def TOKEN_SLASH_ASSIGN_def TOKEN_PERCENT_ASSIGN_def
  TOKEN_DOTDOT_ASSIGN_def TOKEN_NEWLINE_def TOKEN_EOF_def TOKEN_ERROR_def

record Token =
  Type :: TokenType
  Value :: string
  Line :: nat
  Column :: nat

text \<open>
  The source text is a Go string, read byte by byte; \<open>char\<close> is a byte. The cursor
  fields are Go \<open>int\<close>s that only count up from 0 or 1 and stay below the length of the
  source (plus one), so they are natural numbers here.
\<close>

record Lexer =
  source :: string
  tokens :: "Token list"
  start :: nat
  current :: nat
  line :: nat
  column :: nat
  startColumn :: nat

text \<open>
  What a call can end with instead of a value: an error built by
  \<open>fmt.Errorf("line %d: ...", l.line, ...)\<close>, kept as the line number and the text
  after \<open>"line N: "\<close>; or one of Go's run-time panics on an index or a slice
  expression out of range.
\<close>

datatype error =
    LexError nat string
  | IndexOutOfRange
  | SliceBoundsOutOfRange

definition NewLexer :: "string \<Rightarrow> Lexer" where
  "NewLexer src =
     \<lparr>source = src, tokens = [], start = 0, current = 0, line = 1, column = 1,
      startColumn = 0\<rparr>"

section \<open>Cursor primitives\<close>

definition isAtEnd :: "Lexer \<Rightarrow> bool" where
  "isAtEnd l = (current l \<ge> length (source l))"

text \<open>\<open>l.source[l.current]\<close> panics when the cursor is at the end.\<close>

definition advance :: "Lexer \<Rightarrow> error + (char \<times> Lexer)" where
  "advance l =
     (if current l < length (source l)
      then Inr (source l ! current l, l\<lparr>current := current l + 1, column := column l + 1\<rparr>)
      else Inl IndexOutOfRange)"

definition match :: "char \<Rightarrow> Lexer \<Rightarrow> bool \<times> Lexer" where
  "match expected l =
     (if isAtEnd l \<or> source l ! current l \<noteq> expected then (False, l)
      else (True, l\<lparr>current := current l + 1, column := column l + 1\<rparr>))"

definition peek :: "Lexer \<Rightarrow> char" where
  "peek l = (if isAtEnd l then CHR 0x00 else source l ! current l)"

definition peekNext :: "Lexer \<Rightarrow> char" where
  "peekNext l =
     (if current l + 1 \<ge> length (source l) then CHR 0x00 else source l ! (current l + 1))"

text \<open>The slice expression \<open>s[lo:hi]\<close> and the index expression \<open>s[i]\<close>.\<close>

definition slice :: "string \<Rightarrow> nat \<Rightarrow> nat \<Rightarrow> error + string" where
  "slice s lo hi =
     (if lo \<le> hi \<and> hi \<le> length s then Inr (take (hi - lo) (drop lo s))
      else Inl SliceBoundsOutOfRange)"

definition index :: "string \<Rightarrow> nat \<Rightarrow> error + char" where
  "index s i = (if i < length s then Inr (s ! i) else Inl IndexOutOfRange)"

definition addTokenValue :: "TokenType \<Rightarrow> string \<Rightarrow> Lexer \<Rightarrow> Lexer" where
  "addTokenValue tokenType v l =
     l\<lparr>tokens := tokens l @
        [\<lparr>Type = tokenType, Value = v, Line = line l, Column = startColumn l\<rparr>]\<rparr>"

definition addToken :: "TokenType \<Rightarrow> Lexer \<Rightarrow> error + Lexer" where
  "addToken tokenType l =
     (case slice (source l) (start l) (current l) of
        Inl e \<Rightarrow> Inl e
      | Inr v \<Rightarrow> Inr (addTokenValue tokenType v l))"

definition isDigit :: "char \<Rightarrow> bool" where
  "isDigit c = (c \<ge> CHR ''0'' \<and> c \<le> CHR ''9'')"

definition isHexDigit :: "char \<Rightarrow> bool" where
  "isHexDigit c =
     (isDigit c \<or> (c \<ge> CHR ''a'' \<and> c \<le> CHR ''f'') \<or> (c \<ge> CHR ''A'' \<and> c \<le> CHR ''F''))"

definition isAlpha :: "char \<Rightarrow> bool" where
  "isAlpha c =
     ((c \<ge> CHR ''a'' \<and> c \<le> CHR ''z'') \<or> (c \<ge> CHR ''A'' \<and> c \<le> CHR ''Z'') \<or> c = CHR ''_'')"

definition isAlphaNumeric :: "char \<Rightarrow> bool" where
  "isAlphaNumeric c = (isAlpha c \<or> isDigit c)"

section \<open>The loops of the form \<open>for cond { l.advance() }\<close>\<close>

text \<open>
  Most loops of the lexer have the shape \<open>for cond { l.advance(); n++ }\<close>, where the
  condition reads the cursor and, in two places, the counter. \<open>whileAdvance cond l n\<close>
  runs such a loop from state \<open>l\<close> and counter \<open>n\<close> and returns the final counter and
  state. Loops that keep no counter ignore it.
\<close>

function whileAdvance ::
  "(Lexer \<Rightarrow> nat \<Rightarrow> bool) \<Rightarrow> Lexer \<Rightarrow> nat \<Rightarrow> error + (nat \<times> Lexer)" where
  "whileAdvance cond l n =
     (if cond l n
      then (case advance l of
              Inl e \<Rightarrow> Inl e
            | Inr (c, l1) \<Rightarrow> whileAdvance cond l1 (Suc n))
      else Inr (n, l))"
  by pat_completeness auto
termination
  by (relation "measure (\<lambda>(cond, l, n). length (source l) - current l)")
     (auto simp: advance_def split: if_splits)

declare whileAdvance.simps [simp del]

lemma advance_Inr:
  "advance l = Inr (c, l1) \<Longrightarrow>
     current l < length (source l) \<and> c = source l ! current l \<and>
     l1 = l\<lparr>current := current l + 1, column := column l + 1\<rparr>"
  by (auto simp: advance_def split: if_splits)

lemma whileAdvance_Inr:
  "whileAdvance cond l n = Inr (m, l1) \<Longrightarrow>
     source l1 = source l \<and> tokens l1 = tokens l \<and> start l1 = start l \<and>
     line l1 = line l \<and> startColumn l1 = startColumn l \<and>
     current l \<le> current l1 \<and> m = n + (current l1 - current l) \<and>
     column l1 = column l + (current l1 - current l) \<and> \<not> cond l1 m \<and>
     (current l \<le> length (source l) \<longrightarrow> current l1 \<le> length (source l))"
proof (induction cond l n rule: whileAdvance.induct)
  case (1 cond l n)
  show ?case
  proof (cases "cond l n")
    case False
    with "1.prems" show ?thesis by (simp add: whileAdvance.simps)
  next
    case True
    with "1.prems" obtain c l2 where a: "advance l = Inr (c, l2)"
      and w: "whileAdvance cond l2 (Suc n) = Inr (m, l1)"
      by (auto simp: whileAdvance.simps [of cond l n] split: sum.splits)
    from "1.IH" [OF True a refl w] advance_Inr [OF a] show ?thesis by auto
  qed
qed

section \<open>Comments\<close>

text \<open>
  The loop of \<open>comment\<close> that looks for the closing \<open>]=*]\<close>. It has no error to
  return: when the input ends, the loop ends and \<open>comment\<close> returns.
\<close>

function commentLoop :: "nat \<Rightarrow> Lexer \<Rightarrow> error + Lexer" where
  "commentLoop eqCount l =
     (if \<not> isAtEnd l then
        (let l1 = (if peek l = CHR 0x0A then l\<lparr>line := line l + 1, column := 0\<rparr> else l) in
         if peek l1 = CHR '']'' then
           (case advance l1 of
              Inl e \<Rightarrow> Inl e
            | Inr (c, l2) \<Rightarrow>
                (case whileAdvance (\<lambda>l matchEq. peek l = CHR ''='' \<and> matchEq < eqCount) l2 0 of
                   Inl e \<Rightarrow> Inl e
                 | Inr (matchEq, l3) \<Rightarrow>
                     if matchEq = eqCount \<and> peek l3 = CHR '']'' then
                       (case advance l3 of
                          Inl e \<Rightarrow> Inl e
                        | Inr (c', l4) \<Rightarrow> Inr l4)
                     else commentLoop eqCount l3))
         else
           (case advance l1 of
              Inl e \<Rightarrow> Inl e
            | Inr (c, l2) \<Rightarrow> commentLoop eqCount l2))
      else Inr l)"
  by pat_completeness auto
termination
  by (relation "measure (\<lambda>(eqCount, l). length (source l) - current l)")
     (auto simp: isAtEnd_def dest!: advance_Inr whileAdvance_Inr split: if_splits)

declare commentLoop.simps [simp del]

definition comment :: "Lexer \<Rightarrow> error + Lexer" where
  "comment l =
     (if peek l = CHR ''['' \<and> (peekNext l = CHR ''['' \<or> peekNext l = CHR ''='') then
        (case advance l of
           Inl e \<Rightarrow> Inl e
         | Inr (c, l1) \<Rightarrow>
             (case whileAdvance (\<lambda>l eqCount. peek l = CHR ''='') l1 0 of
                Inl e \<Rightarrow> Inl e
              | Inr (eqCount, l2) \<Rightarrow>
                  if peek l2 \<noteq> CHR ''['' then
                    (case whileAdvance (\<lambda>l n. peek l \<noteq> CHR 0x0A \<and> \<not> isAtEnd l) l2 0 of
                       Inl e \<Rightarrow> Inl e
                     | Inr (n, l3) \<Rightarrow> Inr l3)
                  else
                    (case advance l2 of
                       Inl e \<Rightarrow> Inl e
                     | Inr (c', l3) \<Rightarrow> commentLoop eqCount l3)))
      else
        (case whileAdvance (\<lambda>l n. peek l \<noteq> CHR 0x0A \<and> \<not> isAtEnd l) l 0 of
           Inl e \<Rightarrow> Inl e
         | Inr (n, l1) \<Rightarrow> Inr l1))"

section \<open>Decimal formatting\<close>

text \<open>
  \<open>strconv.FormatInt(n, 10)\<close> of Go's standard library, and the \<open>%d\<close> verb of
  \<open>fmt\<close>: the decimal digits of an integer, with a minus sign when it is negative.
\<close>

fun digits10 :: "nat \<Rightarrow> string" where
  "digits10 n =
     (if n < 10 then [char_of (48 + n)]
      else digits10 (n div 10) @ [char_of (48 + n mod 10)])"

declare digits10.simps [simp del]

definition FormatInt :: "int \<Rightarrow> string" where
  "FormatInt n = (if n < 0 then CHR ''-'' # digits10 (nat (- n)) else digits10 (nat n))"

section \<open>String literals\<close>

text \<open>
  The loop of \<open>string\<close>. The second \<open>advance\<close> of the body is not guarded: after a
  backslash that is the last byte of the input it indexes the source at its length.
\<close>

function stringLoop :: "char \<Rightarrow> Lexer \<Rightarrow> error + Lexer" where
  "stringLoop quote l =
     (if peek l \<noteq> quote \<and> \<not> isAtEnd l then
        (if peek l = CHR 0x0A then Inl (LexError (line l) ''unterminated string'')
         else
           (case (if peek l = CHR 0x5C
                  then (case advance l of Inl e \<Rightarrow> Inl e | Inr (c, l1) \<Rightarrow> Inr l1)
                  else Inr l) of
              Inl e \<Rightarrow> Inl e
            | Inr l1 \<Rightarrow>
                (case advance l1 of
                   Inl e \<Rightarrow> Inl e
                 | Inr (c, l2) \<Rightarrow> stringLoop quote l2)))
      else Inr l)"
  by pat_completeness auto
termination
  by (relation "measure (\<lambda>(quote, l). length (source l) - current l)")
     (auto simp: isAtEnd_def dest!: advance_Inr split: if_splits sum.splits)

declare stringLoop.simps [simp del]

definition string_lit :: "char \<Rightarrow> Lexer \<Rightarrow> error + Lexer" where
  "string_lit quote l =
     (case stringLoop quote l of
        Inl e \<Rightarrow> Inl e
      | Inr l1 \<Rightarrow>
          if isAtEnd l1 then Inl (LexError (line l1) ''unterminated string'')
          else
            (case advance l1 of
               Inl e \<Rightarrow> Inl e
             | Inr (c, l2) \<Rightarrow>
                 (case slice (source l2) (start l2) (current l2) of
                    Inl e \<Rightarrow> Inl e
                  | Inr v \<Rightarrow> Inr (addTokenValue TOKEN_STRING v l2))))"

function multilineLoop :: "nat \<Rightarrow> nat \<Rightarrow> Lexer \<Rightarrow> error + Lexer" where
  "multilineLoop eqCount startLine l =
     (if \<not> isAtEnd l then
        (let l1 = (if peek l = CHR 0x0A then l\<lparr>line := line l + 1, column := 0\<rparr> else l) in
         if peek l1 = CHR '']'' then
           (let markPos = current l1 in
            case advance l1 of
              Inl e \<Rightarrow> Inl e
            | Inr (c, l2) \<Rightarrow>
                (case whileAdvance (\<lambda>l matchEq. peek l = CHR ''='' \<and> matchEq < eqCount) l2 0 of
                   Inl e \<Rightarrow> Inl e
                 | Inr (matchEq, l3) \<Rightarrow>
                     if matchEq = eqCount \<and> peek l3 = CHR '']'' then
                       (case advance l3 of
                          Inl e \<Rightarrow> Inl e
                        | Inr (c', l4) \<Rightarrow>
                            (case slice (source l4) (start l4) (current l4) of
                               Inl e \<Rightarrow> Inl e
                             | Inr v \<Rightarrow> Inr (addTokenValue TOKEN_STRING v l4)))
                     else multilineLoop eqCount startLine (l3\<lparr>current := markPos + 1\<rparr>)))
         else
           (case advance l1 of
              Inl e \<Rightarrow> Inl e
            | Inr (c, l2) \<Rightarrow> multilineLoop eqCount startLine l2))
      else
        Inl (LexError (line l)
               (''unterminated multiline string (started at line ''
                  @ FormatInt (int startLine) @ '')'')))"
  by pat_completeness auto
termination
  by (relation "measure (\<lambda>(eqCount, startLine, l). length (source l) - current l)")
     (auto simp: isAtEnd_def dest!: advance_Inr whileAdvance_Inr split: if_splits)

declare multilineLoop.simps [simp del]

definition multilineString :: "Lexer \<Rightarrow> error + Lexer" where
  "multilineString l =
     (case whileAdvance (\<lambda>l eqCount. peek l = CHR ''='') l 0 of
        Inl e \<Rightarrow> Inl e
      | Inr (eqCount, l1) \<Rightarrow>
          if peek l1 \<noteq> CHR ''['' then addToken TOKEN_LBRACKET (l1\<lparr>current := start l1 + 1\<rparr>)
          else
            (case advance l1 of
               Inl e \<Rightarrow> Inl e
             | Inr (c, l2) \<Rightarrow> multilineLoop eqCount (line l2) l2))"

section \<open>Template strings\<close>

text \<open>
  The \<open>strings.Builder\<close> of \<open>templateString\<close> is the string \<open>b\<close>, passed along with
  the lexer. \<open>templateBraces\<close> is the inner loop that copies an interpolation span.
\<close>

function templateBraces :: "nat \<Rightarrow> string \<Rightarrow> Lexer \<Rightarrow> error + (string \<times> Lexer)" where
  "templateBraces braceDepth b l =
     (if braceDepth > 0 \<and> \<not> isAtEnd l then
        (case advance l of
           Inl e \<Rightarrow> Inl e
         | Inr (c, l1) \<Rightarrow>
             if c = CHR ''{'' then templateBraces (braceDepth + 1) (b @ [c]) l1
             else if c = CHR ''}'' then templateBraces (braceDepth - 1) (b @ [c]) l1
             else if c = CHR 0x0A
               then templateBraces braceDepth (b @ [c]) (l1\<lparr>line := line l1 + 1, column := 0\<rparr>)
             else templateBraces braceDepth (b @ [c]) l1)
      else Inr (b, l))"
  by pat_completeness auto
termination
  by (relation "measure (\<lambda>(braceDepth, b, l). length (source l) - current l)")
     (auto simp: isAtEnd_def dest!: advance_Inr split: if_splits)

declare templateBraces.simps [simp del]

lemma templateBraces_Inr:
  "templateBraces d b l = Inr (b1, l1) \<Longrightarrow>
     source l1 = source l \<and> tokens l1 = tokens l \<and> start l1 = start l \<and>
     startColumn l1 = startColumn l \<and> current l \<le> current l1 \<and> line l \<le> line l1 \<and>
     (current l \<le> length (source l) \<longrightarrow> current l1 \<le> length (source l)) \<and>
     b1 = b @ take (current l1 - current l) (drop (current l) (source l))"
proof (induction d b l rule: templateBraces.induct)
  case (1 d b l)
  show ?case
  proof (cases "d > 0 \<and> \<not> isAtEnd l")
    case False
    with "1.prems" show ?thesis by (simp add: templateBraces.simps)
  next
    case True
    with "1.prems" obtain c l2 where a: "advance l = Inr (c, l2)"
      by (auto simp: templateBraces.simps [of d b l] split: sum.splits)
    note A = advance_Inr [OF a]
    have step: "\<And>k. Suc (current l) \<le> k \<Longrightarrow>
        (b @ [c]) @ take (k - Suc (current l)) (drop (Suc (current l)) (source l))
          = b @ take (k - current l) (drop (current l) (source l))"
    proof -
      fix k assume k: "Suc (current l) \<le> k"
      have "drop (current l) (source l) = c # drop (Suc (current l)) (source l)"
        using A by (simp add: Cons_nth_drop_Suc)
      moreover have "k - current l = Suc (k - Suc (current l))" using k by simp
      ultimately show "(b @ [c]) @ take (k - Suc (current l)) (drop (Suc (current l)) (source l))
          = b @ take (k - current l) (drop (current l) (source l))"
        by simp
    qed
    consider (ob) "c = CHR ''{''" | (cb) "c \<noteq> CHR ''{''" "c = CHR ''}''"
      | (nl) "c \<noteq> CHR ''{''" "c \<noteq> CHR ''}''" "c = CHR 0x0A"
      | (ot) "c \<noteq> CHR ''{''" "c \<noteq> CHR ''}''" "c \<noteq> CHR 0x0A" by blast
    then show ?thesis
    proof cases
      case ob
      with "1.prems" True a have r: "templateBraces (d + 1) (b @ [c]) l2 = Inr (b1, l1)"
        by (simp add: templateBraces.simps [of d b l])
      from "1.IH"(1) [OF True a refl ob r] A step [of "current l1"] show ?thesis by auto
    next
      case cb
      with "1.prems" True a have r: "templateBraces (d - 1) (b @ [c]) l2 = Inr (b1, l1)"
        by (simp add: templateBraces.simps [of d b l])
      from "1.IH"(2) [OF True a refl cb r] A step [of "current l1"] show ?thesis by auto
    next
      case nl
      with "1.prems" True a
      have r: "templateBraces d (b @ [c]) (l2\<lparr>line := line l2 + 1, column := 0\<rparr>) = Inr (b1, l1)"
        by (simp add: templateBraces.simps [of d b l])
      from "1.IH"(3) [OF True a refl nl r] A step [of "current l1"] show ?thesis by auto
    next
      case ot
      with "1.prems" True a have r: "templateBraces d (b @ [c]) l2 = Inr (b1, l1)"
        by (simp add: templateBraces.simps [of d b l])
      from "1.IH"(4) [OF True a refl ot r] A step [of "current l1"] show ?thesis by auto
    qed
  qed
qed

function templateLoop :: "string \<Rightarrow> Lexer \<Rightarrow> error + (string \<times> Lexer)" where
  "templateLoop b l =
     (if peek l \<noteq> CHR 0x60 \<and> \<not> isAtEnd l then
        (let l0 = (if peek l = CHR 0x0A then l\<lparr>line := line l + 1, column := 0\<rparr> else l) in
         if peek l0 = CHR 0x5C then
           (case advance l0 of
              Inl e \<Rightarrow> Inl e
            | Inr (c, l1) \<Rightarrow>
                if \<not> isAtEnd l1 then
                  (case advance l1 of
                     Inl e \<Rightarrow> Inl e
                   | Inr (c', l2) \<Rightarrow> templateLoop (b @ [c] @ [c']) l2)
                else templateLoop (b @ [c]) l1)
         else if peek l0 = CHR ''$'' \<and> peekNext l0 = CHR ''{'' then
           (case advance l0 of
              Inl e \<Rightarrow> Inl e
            | Inr (c, l1) \<Rightarrow>
                (case advance l1 of
                   Inl e \<Rightarrow> Inl e
                 | Inr (c', l2) \<Rightarrow>
                     (case templateBraces 1 (b @ [c] @ [c']) l2 of
                        Inl e \<Rightarrow> Inl e
                      | Inr (b3, l3) \<Rightarrow> templateLoop b3 l3)))
         else
           (case advance l0 of
              Inl e \<Rightarrow> Inl e
            | Inr (c, l1) \<Rightarrow> templateLoop (b @ [c]) l1))
      else Inr (b, l))"
  by pat_completeness auto
termination
  by (relation "measure (\<lambda>(b, l). length (source l) - current l)")
     (auto simp: isAtEnd_def dest!: advance_Inr templateBraces_Inr split: if_splits)

declare templateLoop.simps [simp del]

definition templateString :: "Lexer \<Rightarrow> error + Lexer" where
  "templateString l =
     (case templateLoop [CHR 0x60] l of
        Inl e \<Rightarrow> Inl e
      | Inr (b, l1) \<Rightarrow>
          if isAtEnd l1 then Inl (LexError (line l1) ''unterminated template string'')
          else
            (case advance l1 of
               Inl e \<Rightarrow> Inl e
             | Inr (c, l2) \<Rightarrow> Inr (addTokenValue TOKEN_TEMPLATE_STRING (b @ [CHR 0x60]) l2)))"

section \<open>Numbers and identifiers\<close>

text \<open>
  The part of \<open>number\<close> after the check for a base prefix, in the three steps the
  source marks: the digits, the decimal part, the exponent.
\<close>

definition numberFraction :: "Lexer \<Rightarrow> error + Lexer" where
  "numberFraction l =
     (if peek l = CHR ''.'' \<and> isDigit (peekNext l) then
        (case advance l of
           Inl e \<Rightarrow> Inl e
         | Inr (c, l1) \<Rightarrow>
             (case whileAdvance (\<lambda>l n. isDigit (peek l)) l1 0 of
                Inl e \<Rightarrow> Inl e
              | Inr (n, l2) \<Rightarrow> Inr l2))
      else Inr l)"

definition numberExponent :: "Lexer \<Rightarrow> error + Lexer" where
  "numberExponent l =
     (if peek l = CHR ''e'' \<or> peek l = CHR ''E'' then
        (case advance l of
           Inl e \<Rightarrow> Inl e
         | Inr (c, l1) \<Rightarrow>
             (case (if peek l1 = CHR ''+'' \<or> peek l1 = CHR ''-''
                    then (case advance l1 of Inl e \<Rightarrow> Inl e | Inr (c', l2) \<Rightarrow> Inr l2)
                    else Inr l1) of
                Inl e \<Rightarrow> Inl e
              | Inr l2 \<Rightarrow>
                  (case whileAdvance (\<lambda>l n. isDigit (peek l)) l2 0 of
                     Inl e \<Rightarrow> Inl e
                   | Inr (n, l3) \<Rightarrow> Inr l3)))
      else Inr l)"

definition numberDecimal :: "Lexer \<Rightarrow> error + Lexer" where
  "numberDecimal l =
     (case whileAdvance (\<lambda>l n. isDigit (peek l)) l 0 of
        Inl e \<Rightarrow> Inl e
      | Inr (n, l1) \<Rightarrow>
          (case numberFraction l1 of
             Inl e \<Rightarrow> Inl e
           | Inr l2 \<Rightarrow>
               (case numberExponent l2 of
                  Inl e \<Rightarrow> Inl e
                | Inr l3 \<Rightarrow> addToken TOKEN_NUMBER l3)))"

definition number :: "Lexer \<Rightarrow> error + Lexer" where
  "number l =
     (case index (source l) (start l) of
        Inl e \<Rightarrow> Inl e
      | Inr c0 \<Rightarrow>
          if c0 = CHR ''0'' \<and> current l < length (source l)
             \<and> (peek l = CHR ''x'' \<or> peek l = CHR ''X'') then
            (case advance l of
               Inl e \<Rightarrow> Inl e
             | Inr (c, l1) \<Rightarrow>
                 (case whileAdvance (\<lambda>l n. isHexDigit (peek l)) l1 0 of
                    Inl e \<Rightarrow> Inl e
                  | Inr (n, l2) \<Rightarrow> addToken TOKEN_NUMBER l2))
          else if c0 = CHR ''0'' \<and> current l < length (source l)
             \<and> (peek l = CHR ''b'' \<or> peek l = CHR ''B'') then
            (case advance l of
               Inl e \<Rightarrow> Inl e
             | Inr (c, l1) \<Rightarrow>
                 (case whileAdvance (\<lambda>l n. peek l = CHR ''0'' \<or> peek l = CHR ''1'') l1 0 of
                    Inl e \<Rightarrow> Inl e
                  | Inr (n, l2) \<Rightarrow> addToken TOKEN_NUMBER l2))
          else if c0 = CHR ''0'' \<and> current l < length (source l)
             \<and> (peek l = CHR ''o'' \<or> peek l = CHR ''O'') then
            (case advance l of
               Inl e \<Rightarrow> Inl e
             | Inr (c, l1) \<Rightarrow>
                 (case whileAdvance (\<lambda>l n. peek l \<ge> CHR ''0'' \<and> peek l \<le> CHR ''7'') l1 0 of
                    Inl e \<Rightarrow> Inl e
                  | Inr (n, l2) \<Rightarrow> addToken TOKEN_NUMBER l2))
          else numberDecimal l)"

definition keywords_map :: "string \<rightharpoonup> TokenType" where
  "keywords_map = map_of
     [(''and'', TOKEN_AND),
      (''break'', TOKEN_BREAK),
      (''continue'', TOKEN_CONTINUE),
      (''case'', TOKEN_CASE),
      (''default'', TOKEN_DEFAULT),
      (''do'', TOKEN_DO),
      (''else'', TOKEN_ELSE),
      (''elseif'', TOKEN_ELSEIF),
      (''end'', TOKEN_END),
      (''false'', TOKEN_FALSE),
      (''for'', TOKEN_FOR),
      (''function'', TOKEN_FUNCTION),
      (''global'', TOKEN_GLOBAL),
      (''goto'', TOKEN_GOTO),
      (''if'', TOKEN_IF),
      (''in'', TOKEN_IN),
      (''local'', TOKEN_LOCAL),
      (''nil'', TOKEN_NIL),
      (''not'', TOKEN_NOT),
      (''or'', TOKEN_OR),
      (''repeat'', TOKEN_REPEAT),
      (''return'', TOKEN_RETURN),
      (''switch'', TOKEN_SWITCH),
      (''then'', TOKEN_THEN),
      (''true'', TOKEN_TRUE),
      (''until'', TOKEN_UNTIL),
      (''while'', TOKEN_WHILE)]"

definition identifier_tok :: "Lexer \<Rightarrow> error + Lexer" where
  "identifier_tok l =
     (case whileAdvance (\<lambda>l n. isAlphaNumeric (peek l)) l 0 of
        Inl e \<Rightarrow> Inl e
      | Inr (n, l1) \<Rightarrow>
          (case slice (source l1) (start l1) (current l1) of
             Inl e \<Rightarrow> Inl e
           | Inr word \<Rightarrow>
               addToken (case keywords_map word of Some tokenType \<Rightarrow> tokenType
                         | None \<Rightarrow> TOKEN_IDENT) l1))"

section \<open>One scanning step\<close>

text \<open>
  The \<open>%c\<close> verb of \<open>fmt\<close> applied to a byte prints the code point of that number in
  UTF-8: one byte below 128, two bytes from 128 on.
\<close>

definition fmt_c :: "char \<Rightarrow> string" where
  "fmt_c c =
     (let n = (of_char c :: nat) in
      if n < 128 then [c] else [char_of (192 + n div 64), char_of (128 + n mod 64)])"

definition scanToken :: "Lexer \<Rightarrow> error + Lexer" where
  "scanToken l =
     (case advance l of
        Inl e \<Rightarrow> Inl e
      | Inr (c, l1) \<Rightarrow>
          if c = CHR ''('' then addToken TOKEN_LPAREN l1
          else if c = CHR '')'' then addToken TOKEN_RPAREN l1
          else if c = CHR ''{'' then addToken TOKEN_LBRACE l1
          else if c = CHR ''}'' then addToken TOKEN_RBRACE l1
          else if c = CHR ''['' then
            (if peek l1 = CHR ''['' \<or> peek l1 = CHR ''='' then multilineString l1
             else addToken TOKEN_LBRACKET l1)
          else if c = CHR '']'' then addToken TOKEN_RBRACKET l1
          else if c = CHR '';'' then addToken TOKEN_SEMICOLON l1
          else if c = CHR '','' then addToken TOKEN_COMMA l1
          else if c = CHR ''#'' then addToken TOKEN_HASH l1
          else if c = CHR ''^'' then addToken TOKEN_CARET l1
          else if c = CHR ''+'' then
            (let (m, l2) = match (CHR ''='') l1 in
             if m then addToken TOKEN_PLUS_ASSIGN l2 else addToken TOKEN_PLUS l2)
          else if c = CHR ''-'' then
            (let (m, l2) = match (CHR ''-'') l1 in
             if m then comment l2
             else
               (let (m', l3) = match (CHR ''='') l2 in
                if m' then addToken TOKEN_MINUS_ASSIGN l3 else addToken TOKEN_MINUS l3))
          else if c = CHR ''*'' then
            (let (m, l2) = match (CHR ''='') l1 in
             if m then addToken TOKEN_STAR_ASSIGN l2 else addToken TOKEN_STAR l2)
          else if c = CHR ''/'' then
            (let (m, l2) = match (CHR ''='') l1 in
             if m then addToken TOKEN_SLASH_ASSIGN l2 else addToken TOKEN_SLASH l2)
          else if c = CHR ''%'' then
            (let (m, l2) = match (CHR ''='') l1 in
             if m then addToken TOKEN_PERCENT_ASSIGN l2 else addToken TOKEN_PERCENT l2)
          else if c = CHR ''='' then
            (let (m, l2) = match (CHR ''='') l1 in
             if m then addToken TOKEN_EQ l2 else addToken TOKEN_ASSIGN l2)
          else if c = CHR ''!'' then
            (let (m, l2) = match (CHR ''='') l1 in
             if m then addToken TOKEN_NEQ l2
             else Inl (LexError (line l2)
                    (''unexpected character '' @ [CHR 0x27] @ ''!'' @ [CHR 0x27])))
          else if c = CHR ''~'' then
            (let (m, l2) = match (CHR ''='') l1 in
             if m then addToken TOKEN_NEQ l2
             else Inl (LexError (line l2)
                    (''unexpected character '' @ [CHR 0x27] @ ''~'' @ [CHR 0x27]
                       @ '' (did you mean '' @ [CHR 0x27] @ ''~='' @ [CHR 0x27] @ ''?)'')))
          else if c = CHR ''<'' then
            (let (m, l2) = match (CHR ''='') l1 in
             if m then addToken TOKEN_LE l2 else addToken TOKEN_LT l2)
          else if c = CHR ''>'' then
            (let (m, l2) = match (CHR ''='') l1 in
             if m then addToken TOKEN_GE l2 else addToken TOKEN_GT l2)
          else if c = CHR '':'' then
            (let (m, l2) = match (CHR '':'') l1 in
             if m then addToken TOKEN_DOUBLECOLON l2 else addToken TOKEN_COLON l2)
          else if c = CHR ''.'' then
            (let (m, l2) = match (CHR ''.'') l1 in
             if m then
               (let (m', l3) = match (CHR ''.'') l2 in
                if m' then addToken TOKEN_DOTDOTDOT l3
                else
                  (let (m'', l4) = match (CHR ''='') l3 in
                   if m'' then addToken TOKEN_DOTDOT_ASSIGN l4 else addToken TOKEN_DOTDOT l4))
             else if isDigit (peek l2) then number l2
             else addToken TOKEN_DOT l2)
          else if c = CHR ''?'' then
            (let (m, l2) = match (CHR ''.'') l1 in
             if m then addToken TOKEN_QUESTION_DOT l2
             else
               (let (m', l3) = match (CHR ''?'') l2 in
                if m' then addToken TOKEN_DOUBLE_QUESTION l3
                else Inl (LexError (line l3)
                       (''unexpected character '' @ [CHR 0x27] @ ''?'' @ [CHR 0x27]))))
          else if c = CHR 0x22 \<or> c = CHR 0x27 then string_lit c l1
          else if c = CHR 0x60 then templateString l1
          else if c = CHR 0x0A then Inr (l1\<lparr>line := line l1 + 1, column := 1\<rparr>)
          else if c = CHR '' '' \<or> c = CHR 0x0D \<or> c = CHR 0x09 then Inr l1
          else if isDigit c then number l1
          else if isAlpha c then identifier_tok l1
          else Inl (LexError (line l1)
                 (''unexpected character '' @ [CHR 0x27] @ fmt_c c @ [CHR 0x27])))"

section \<open>What one step does to the lexer state\<close>

text \<open>
  \<open>moved l l1\<close>: \<open>l1\<close> is \<open>l\<close> with the cursor moved forward (and lines counted), no
  token added. \<open>step_ok l l1\<close>: \<open>l1\<close> is \<open>l\<close> after the rest of a scanning step that
  started at \<open>start l\<close>: the cursor is past \<open>start l\<close> and inside the source, and at
  most one token was added, whose kind is neither end-of-input nor newline.
\<close>

definition moved :: "Lexer \<Rightarrow> Lexer \<Rightarrow> bool" where
  "moved l l1 =
     (source l1 = source l \<and> tokens l1 = tokens l \<and> start l1 = start l \<and>
      startColumn l1 = startColumn l \<and> current l \<le> current l1 \<and> line l \<le> line l1 \<and>
      (current l \<le> length (source l) \<longrightarrow> current l1 \<le> length (source l)))"

definition good_kind :: "TokenType \<Rightarrow> bool" where
  "good_kind ty = (ty \<noteq> TOKEN_EOF \<and> ty \<noteq> TOKEN_NEWLINE)"

definition step_ok :: "Lexer \<Rightarrow> Lexer \<Rightarrow> bool" where
  "step_ok l l1 =
     (source l1 = source l \<and> start l1 = start l \<and> startColumn l1 = startColumn l \<and>
      start l < current l1 \<and> current l1 \<le> length (source l) \<and> line l \<le> line l1 \<and>
      (tokens l1 = tokens l \<or> (\<exists>t. tokens l1 = tokens l @ [t] \<and> good_kind (Type t))))"

lemma moved_refl: "moved l l"
  by (simp add: moved_def)

lemma moved_trans: "moved l l1 \<Longrightarrow> moved l1 l2 \<Longrightarrow> moved l l2"
  by (auto simp: moved_def)

lemma moved_bump: "moved l (l\<lparr>line := line l + 1, column := c\<rparr>)"
  by (simp add: moved_def)

lemma advance_moved: "advance l = Inr (c, l1) \<Longrightarrow> moved l l1 \<and> current l < current l1"
  by (auto simp: moved_def dest!: advance_Inr)

lemma whileAdvance_moved: "whileAdvance cond l n = Inr (m, l1) \<Longrightarrow> moved l l1"
  by (auto simp: moved_def dest!: whileAdvance_Inr)

lemma match_moved: "match c l = (m, l1) \<Longrightarrow> moved l l1"
  by (auto simp: match_def isAtEnd_def moved_def split: if_splits)

lemma moved_step_ok:
  "moved l l1 \<Longrightarrow> start l < current l \<Longrightarrow> current l \<le> length (source l) \<Longrightarrow> step_ok l l1"
  by (auto simp: moved_def step_ok_def)

lemma addToken_step_ok:
  "addToken ty l1 = Inr l2 \<Longrightarrow> moved l l1 \<Longrightarrow> good_kind ty \<Longrightarrow> start l < current l \<Longrightarrow>
     current l \<le> length (source l) \<Longrightarrow> step_ok l l2"
  by (auto simp: addToken_def slice_def addTokenValue_def moved_def step_ok_def split: if_splits)

lemma commentLoop_moved: "commentLoop k l = Inr l1 \<Longrightarrow> moved l l1"
proof (induction k l rule: commentLoop.induct)
  case (1 k l)
  show ?case
  proof (cases "isAtEnd l")
    case True
    with "1.prems" show ?thesis by (simp add: commentLoop.simps moved_refl)
  next
    case False
    define l0 where "l0 = (if peek l = CHR 0x0A then l\<lparr>line := line l + 1, column := 0\<rparr> else l)"
    have l0: "moved l l0" by (simp add: l0_def moved_def)
    show ?thesis
    proof (cases "peek l0 = CHR '']''")
      case br: True
      from "1.prems" False br obtain c l2 m l3 where a: "advance l0 = Inr (c, l2)"
        and w: "whileAdvance (\<lambda>l matchEq. peek l = CHR ''='' \<and> matchEq < k) l2 0 = Inr (m, l3)"
        by (auto simp: commentLoop.simps [of k l] l0_def Let_def split: sum.splits if_splits)
      have m3: "moved l l3"
        using l0 advance_moved [OF a] whileAdvance_moved [OF w] by (blast intro: moved_trans)
      show ?thesis
      proof (cases "m = k \<and> peek l3 = CHR '']''")
        case True
        with "1.prems" False br a w obtain c' where a3: "advance l3 = Inr (c', l1)"
          by (auto simp: commentLoop.simps [of k l] l0_def [symmetric] Let_def split: sum.splits)
        from advance_moved [OF a3] m3 show ?thesis by (blast intro: moved_trans)
      next
        case nm: False
        with "1.prems" False br a w have r: "commentLoop k l3 = Inr l1"
          by (auto simp: commentLoop.simps [of k l] l0_def [symmetric] Let_def split: sum.splits)
        from "1.IH"(1) [OF False l0_def br a refl w refl nm r] m3 show ?thesis
          by (blast intro: moved_trans)
      qed
    next
      case nb: False
      from "1.prems" False nb obtain c l2 where a: "advance l0 = Inr (c, l2)"
        and r: "commentLoop k l2 = Inr l1"
        by (auto simp: commentLoop.simps [of k l] l0_def [symmetric] Let_def split: sum.splits)
      from "1.IH"(2) [OF False l0_def nb a refl r] advance_moved [OF a] l0 show ?thesis
        by (blast intro: moved_trans)
    qed
  qed
qed

lemma comment_moved: "comment l = Inr l1 \<Longrightarrow> moved l l1"
  unfolding comment_def
  by (auto split: if_splits sum.splits
      dest!: advance_moved whileAdvance_moved commentLoop_moved) (auto simp: moved_def)

lemma stringLoop_moved: "stringLoop q l = Inr l1 \<Longrightarrow> moved l l1"
proof (induction q l rule: stringLoop.induct)
  case (1 q l)
  show ?case
  proof (cases "peek l \<noteq> q \<and> \<not> isAtEnd l")
    case False
    with "1.prems" show ?thesis by (auto simp: stringLoop.simps [of q l] moved_refl)
  next
    case True
    with "1.prems" have nn: "peek l \<noteq> CHR 0x0A"
      by (auto simp: stringLoop.simps [of q l] split: if_splits)
    define r0 where "r0 = (if peek l = CHR 0x5C
                  then (case advance l of Inl e \<Rightarrow> Inl e | Inr (c, l1) \<Rightarrow> Inr l1)
                  else Inr l)"
    from "1.prems" True nn obtain la c l2 where r0: "r0 = Inr la"
      and a: "advance la = Inr (c, l2)" and r: "stringLoop q l2 = Inr l1"
      by (auto simp: stringLoop.simps [of q l] r0_def split: sum.splits)
    have "moved l la" using r0
      by (auto simp: r0_def moved_refl split: if_splits sum.splits dest!: advance_moved)
    with "1.IH" [OF True nn r0 [unfolded r0_def] a refl r] advance_moved [OF a]
    show ?thesis by (blast intro: moved_trans)
  qed
qed

lemma addTokenValue_step_ok:
  "moved l l1 \<Longrightarrow> good_kind ty \<Longrightarrow> start l < current l \<Longrightarrow>
     current l \<le> length (source l) \<Longrightarrow> step_ok l (addTokenValue ty v l1)"
  by (auto simp: addTokenValue_def moved_def step_ok_def)

lemma good_kinds [simp]:
  "good_kind TOKEN_STRING" "good_kind TOKEN_TEMPLATE_STRING" "good_kind TOKEN_NUMBER"
  "good_kind TOKEN_IDENT" "good_kind TOKEN_LBRACKET"
  by (simp_all add: good_kind_def token_defs)

lemma string_lit_step_ok:
  "string_lit q l = Inr l1 \<Longrightarrow> start l < current l \<Longrightarrow> current l \<le> length (source l) \<Longrightarrow>
     step_ok l l1"
  unfolding string_lit_def
  by (auto split: if_splits sum.splits dest!: stringLoop_moved advance_moved
      intro!: addTokenValue_step_ok) (auto simp: moved_def)


lemma multilineLoop_step_ok:
  "multilineLoop k sl l = Inr l1 \<Longrightarrow> start l < current l \<Longrightarrow>
     current l \<le> length (source l) \<Longrightarrow> step_ok l l1"
proof (induction k sl l rule: multilineLoop.induct)
  case (1 k sl l)
  from "1.prems" have ne: "\<not> isAtEnd l" by (auto simp: multilineLoop.simps [of k sl l])
  define l0 where "l0 = (if peek l = CHR 0x0A then l\<lparr>line := line l + 1, column := 0\<rparr> else l)"
  have l0: "moved l l0" "current l0 = current l" by (simp_all add: l0_def moved_def)
  show ?case
  proof (cases "peek l0 = CHR '']''")
    case br: True
    from "1.prems" ne br obtain c l2 m l3 where a: "advance l0 = Inr (c, l2)"
      and w: "whileAdvance (\<lambda>l matchEq. peek l = CHR ''='' \<and> matchEq < k) l2 0 = Inr (m, l3)"
      by (auto simp: multilineLoop.simps [of k sl l] l0_def Let_def split: sum.splits if_splits)
    have m3: "moved l l3" "current l < current l3"
      using l0 advance_moved [OF a] whileAdvance_moved [OF w] by (auto simp: moved_def)
    show ?thesis
    proof (cases "m = k \<and> peek l3 = CHR '']''")
      case True
      with "1.prems"(1) ne br a w obtain c' l4 where a3: "advance l3 = Inr (c', l4)"
        and s: "addToken TOKEN_STRING l4 = Inr l1"
        by (auto simp: multilineLoop.simps [of k sl l] l0_def [symmetric] Let_def addToken_def
            split: sum.splits)
      have "moved l l4" using advance_moved [OF a3] m3 by (auto simp: moved_def)
      from addToken_step_ok [OF s this _ "1.prems"(2,3)] show ?thesis by simp
    next
      case nm: False
      define l5 where "l5 = l3\<lparr>current := current l0 + 1\<rparr>"
      from nm "1.prems"(1) ne br a w have r: "multilineLoop k sl l5 = Inr l1"
        by (auto simp: multilineLoop.simps [of k sl l] l0_def [symmetric] l5_def Let_def
            split: sum.splits)
      have m5: "moved l l5" "current l < current l5"
        using m3 l0 ne "1.prems"(3) by (auto simp: l5_def moved_def isAtEnd_def)
      have "step_ok l5 l1"
        using "1.IH"(1) [OF ne l0_def br refl a refl w refl nm r [unfolded l5_def]] m5 "1.prems"(2,3)
        by (auto simp: moved_def l5_def)
      with m5 show ?thesis by (auto simp: step_ok_def moved_def)
    qed
  next
    case nb: False
    from "1.prems" ne nb obtain c l2 where a: "advance l0 = Inr (c, l2)"
      and r: "multilineLoop k sl l2 = Inr l1"
      by (auto simp: multilineLoop.simps [of k sl l] l0_def [symmetric] Let_def split: sum.splits)
    have m2: "moved l l2" using advance_moved [OF a] l0 by (auto simp: moved_def)
    have "step_ok l2 l1"
      using "1.IH"(2) [OF ne l0_def nb a refl r] m2 "1.prems"(2,3) by (auto simp: moved_def)
    with m2 show ?thesis by (auto simp: step_ok_def moved_def)
  qed
qed

lemma multilineString_step_ok:
  "multilineString l = Inr l1 \<Longrightarrow> start l < current l \<Longrightarrow>
     current l \<le> length (source l) \<Longrightarrow> step_ok l l1"
proof -
  assume r: "multilineString l = Inr l1" and p: "start l < current l"
    "current l \<le> length (source l)"
  from r obtain n la where w: "whileAdvance (\<lambda>l eqCount. peek l = CHR ''='') l 0 = Inr (n, la)"
    by (auto simp: multilineString_def split: sum.splits)
  note M = whileAdvance_moved [OF w]
  show ?thesis
  proof (cases "peek la \<noteq> CHR ''[''")
    case True
    with r w have "addToken TOKEN_LBRACKET (la\<lparr>current := start la + 1\<rparr>) = Inr l1"
      by (simp add: multilineString_def)
    with M p show ?thesis
      by (auto simp: addToken_def slice_def addTokenValue_def moved_def step_ok_def
          good_kind_def token_defs split: if_splits)
  next
    case False
    with r w obtain c l2 where a: "advance la = Inr (c, l2)"
      and m: "multilineLoop n (line l2) l2 = Inr l1"
      by (auto simp: multilineString_def split: sum.splits)
    have m2: "moved l l2" using M advance_moved [OF a] by (auto simp: moved_def)
    with multilineLoop_step_ok [OF m] p have "step_ok l2 l1" by (auto simp: moved_def)
    with m2 show ?thesis by (auto simp: step_ok_def moved_def)
  qed
qed


lemma advance_ok:
  "\<not> isAtEnd l \<Longrightarrow>
     advance l = Inr (source l ! current l, l\<lparr>current := current l + 1, column := column l + 1\<rparr>)"
  by (simp add: advance_def isAtEnd_def)

lemma take_drop_step:
  "i < length s \<Longrightarrow> Suc i \<le> k \<Longrightarrow>
     (b @ [s ! i]) @ take (k - Suc i) (drop (Suc i) s) = b @ take (k - i) (drop i s)"
proof -
  assume i: "i < length s" and k: "Suc i \<le> k"
  have "drop i s = s ! i # drop (Suc i) s" using i by (simp add: Cons_nth_drop_Suc)
  moreover have "k - i = Suc (k - Suc i)" using k by simp
  ultimately show ?thesis by simp
qed

lemma templateLoop_Inr:
  "templateLoop b l = Inr (b1, l1) \<Longrightarrow>
     moved l l1 \<and> b1 = b @ take (current l1 - current l) (drop (current l) (source l)) \<and>
     (isAtEnd l1 \<or> peek l1 = CHR 0x60)"
proof (induction b l arbitrary: b1 l1 rule: templateLoop.induct)
  case (1 b l)
  show ?case
  proof (cases "peek l \<noteq> CHR 0x60 \<and> \<not> isAtEnd l")
    case False
    with "1.prems" show ?thesis by (auto simp: templateLoop.simps [of b l] moved_refl)
  next
    case True
    define l0 where "l0 = (if peek l = CHR 0x0A then l\<lparr>line := line l + 1, column := 0\<rparr> else l)"
    have l0: "moved l l0" "current l0 = current l" "source l0 = source l" "\<not> isAtEnd l0"
      using True by (simp_all add: l0_def moved_def isAtEnd_def)
    obtain c la where a: "advance l0 = Inr (c, la)" using advance_ok [OF l0(4)] by blast
    note A = advance_moved [OF a] advance_Inr [OF a]
    have cc: "c = source l ! current l" "current l < length (source l)"
      "current la = Suc (current l)" "source la = source l"
      using A l0 by auto
    note R = "1.prems" [unfolded templateLoop.simps [of b l], folded l0_def]
    consider (bs) "peek l0 = CHR 0x5C"
      | (dl) "peek l0 \<noteq> CHR 0x5C" "peek l0 = CHR ''$'' \<and> peekNext l0 = CHR ''{''"
      | (ot) "peek l0 \<noteq> CHR 0x5C" "\<not> (peek l0 = CHR ''$'' \<and> peekNext l0 = CHR ''{'')"
      by blast
    then show ?thesis
    proof cases
      case bs
      show ?thesis
      proof (cases "isAtEnd la")
        case e: True
        with R True bs a have r: "templateLoop (b @ [c]) la = Inr (b1, l1)"
          by (simp add: Let_def)
        from "1.IH"(2) [OF True l0_def bs a refl _ r] e
        have "moved la l1" "b1 = (b @ [c]) @ take (current l1 - current la) (drop (current la) (source la))"
          "isAtEnd l1 \<or> peek l1 = CHR 0x60" by auto
        with A l0 cc take_drop_step [of "current l" "source l" "current l1" b]
        show ?thesis by (auto simp: moved_def)
      next
        case ne: False
        obtain c' lb where a2: "advance la = Inr (c', lb)" using advance_ok [OF ne] by blast
        note B = advance_moved [OF a2] advance_Inr [OF a2]
        from R True bs a a2 ne have r: "templateLoop (b @ [c] @ [c']) lb = Inr (b1, l1)"
          by (simp add: Let_def)
        from "1.IH"(1) [OF True l0_def bs a refl _ a2 refl r] ne
        have I: "moved lb l1"
          "b1 = (b @ [c] @ [c']) @ take (current l1 - current lb) (drop (current lb) (source lb))"
          "isAtEnd l1 \<or> peek l1 = CHR 0x60" by auto
        have "(b @ [c] @ [c']) @ take (current l1 - current lb) (drop (current lb) (source lb))
              = (b @ [c]) @ take (current l1 - current la) (drop (current la) (source la))"
          using take_drop_step [of "current la" "source la" "current l1" "b @ [c]"] B I(1)
          by (auto simp: moved_def)
        also have "\<dots> = b @ take (current l1 - current l) (drop (current l) (source l))"
          using take_drop_step [of "current l" "source l" "current l1" b] cc B I(1)
          by (auto simp: moved_def)
        finally show ?thesis using I A B l0 by (auto simp: moved_def)
      qed
    next
      case dl
      have ne: "\<not> isAtEnd la" using dl cc l0
        by (auto simp: peekNext_def isAtEnd_def split: if_splits)
      obtain c' lb where a2: "advance la = Inr (c', lb)" using advance_ok [OF ne] by blast
      note B = advance_moved [OF a2] advance_Inr [OF a2]
      from R True dl a a2 obtain b3 l3
        where tb: "templateBraces 1 (b @ [c] @ [c']) lb = Inr (b3, l3)"
          and r: "templateLoop b3 l3 = Inr (b1, l1)"
        by (auto simp: Let_def split: sum.splits)
      note T = templateBraces_Inr [OF tb]
      from "1.IH"(3) [OF True l0_def dl(1) dl(2) a refl a2 refl tb refl r]
      have I: "moved l3 l1"
        "b1 = b3 @ take (current l1 - current l3) (drop (current l3) (source l3))"
        "isAtEnd l1 \<or> peek l1 = CHR 0x60" by auto
      have e1: "b3 = b @ take (current l3 - current l) (drop (current l) (source l))"
      proof -
        have "b3 = (b @ [c] @ [c']) @ take (current l3 - current lb) (drop (current lb) (source lb))"
          using T by simp
        also have "\<dots> = (b @ [c]) @ take (current l3 - current la) (drop (current la) (source la))"
          using take_drop_step [of "current la" "source la" "current l3" "b @ [c]"] B T
          by auto
        also have "\<dots> = b @ take (current l3 - current l) (drop (current l) (source l))"
          using take_drop_step [of "current l" "source l" "current l3" b] cc B T by auto
        finally show ?thesis .
      qed
      have le: "current l \<le> current l3" "current l3 \<le> current l1" "source l3 = source l"
        using cc B T I(1) by (auto simp: moved_def)
      have "b1 = b @ take (current l1 - current l) (drop (current l) (source l))"
      proof -
        have "take (current l1 - current l) (drop (current l) (source l))
            = take (current l3 - current l) (drop (current l) (source l))
              @ take (current l1 - current l3) (drop (current l3) (source l))"
          using le take_add [of "current l3 - current l" "current l1 - current l3" "drop (current l) (source l)"]
          by simp
        with I(2) e1 le show ?thesis by simp
      qed
      moreover have "moved l l1" using l0 A B T I(1) by (auto simp: moved_def)
      ultimately show ?thesis using I(3) by simp
    next
      case ot
      with R True a have r: "templateLoop (b @ [c]) la = Inr (b1, l1)"
        by (simp add: Let_def)
      from "1.IH"(4) [OF True l0_def ot(1) ot(2) a refl r]
      have "moved la l1" "b1 = (b @ [c]) @ take (current l1 - current la) (drop (current la) (source la))"
        "isAtEnd l1 \<or> peek l1 = CHR 0x60" by auto
      with A l0 cc take_drop_step [of "current l" "source l" "current l1" b]
      show ?thesis by (auto simp: moved_def)
    qed
  qed
qed

lemma templateString_step_ok:
  "templateString l = Inr l1 \<Longrightarrow> start l < current l \<Longrightarrow>
     current l \<le> length (source l) \<Longrightarrow> step_ok l l1"
  unfolding templateString_def
  by (auto split: if_splits sum.splits dest!: templateLoop_Inr advance_moved
      intro!: addTokenValue_step_ok) (auto simp: moved_def)


lemma numberFraction_moved: "numberFraction l = Inr l1 \<Longrightarrow> moved l l1"
  unfolding numberFraction_def
  by (auto split: if_splits sum.splits dest!: whileAdvance_moved advance_moved
      simp: moved_refl) (auto simp: moved_def)

lemma numberExponent_moved: "numberExponent l = Inr l1 \<Longrightarrow> moved l l1"
proof -
  assume r: "numberExponent l = Inr l1"
  show ?thesis
  proof (cases "peek l = CHR ''e'' \<or> peek l = CHR ''E''")
    case False
    with r show ?thesis by (simp add: numberExponent_def moved_refl)
  next
    case True
    with r obtain c la where a: "advance l = Inr (c, la)"
      by (auto simp: numberExponent_def split: sum.splits)
    define sg where "sg = (if peek la = CHR ''+'' \<or> peek la = CHR ''-''
                    then (case advance la of Inl e \<Rightarrow> Inl e | Inr (c', l2) \<Rightarrow> Inr l2)
                    else Inr la)"
    from r True a obtain lb n where s: "sg = Inr lb"
      and w: "whileAdvance (\<lambda>l n. isDigit (peek l)) lb 0 = Inr (n, l1)"
      by (auto simp: numberExponent_def sg_def [symmetric] split: sum.splits)
    have "moved la lb" using s
      by (auto simp: sg_def moved_refl split: if_splits sum.splits dest!: advance_moved)
    with advance_moved [OF a] whileAdvance_moved [OF w] show ?thesis
      by (blast intro: moved_trans)
  qed
qed

lemma numberDecimal_step_ok:
  "numberDecimal l = Inr l1 \<Longrightarrow> start l < current l \<Longrightarrow>
     current l \<le> length (source l) \<Longrightarrow> step_ok l l1"
proof -
  assume r: "numberDecimal l = Inr l1" and p: "start l < current l"
    "current l \<le> length (source l)"
  from r obtain n la lb lc where w: "whileAdvance (\<lambda>l n. isDigit (peek l)) l 0 = Inr (n, la)"
    and f: "numberFraction la = Inr lb" and e: "numberExponent lb = Inr lc"
    and t: "addToken TOKEN_NUMBER lc = Inr l1"
    by (auto simp: numberDecimal_def split: sum.splits)
  have m: "moved l lc"
    using whileAdvance_moved [OF w] numberFraction_moved [OF f] numberExponent_moved [OF e]
    by (blast intro: moved_trans)
  from addToken_step_ok [OF t m _ p] show ?thesis by simp
qed

lemma prefixed_step_ok:
  "(case advance l of
      Inl e \<Rightarrow> Inl e
    | Inr (c, l1) \<Rightarrow>
        (case whileAdvance P l1 0 of
           Inl e \<Rightarrow> Inl e
         | Inr (n, l2) \<Rightarrow> addToken TOKEN_NUMBER l2)) = Inr l' \<Longrightarrow>
   start l < current l \<Longrightarrow> current l \<le> length (source l) \<Longrightarrow> step_ok l l'"
proof -
  assume r: "(case advance l of
      Inl e \<Rightarrow> Inl e
    | Inr (c, l1) \<Rightarrow>
        (case whileAdvance P l1 0 of
           Inl e \<Rightarrow> Inl e
         | Inr (n, l2) \<Rightarrow> addToken TOKEN_NUMBER l2)) = Inr l'"
    and p: "start l < current l" "current l \<le> length (source l)"
  from r obtain c la n lb where a: "advance l = Inr (c, la)"
    and w: "whileAdvance P la 0 = Inr (n, lb)" and t: "addToken TOKEN_NUMBER lb = Inr l'"
    by (auto split: sum.splits)
  have "moved l lb" using advance_moved [OF a] whileAdvance_moved [OF w]
    by (blast intro: moved_trans)
  from addToken_step_ok [OF t this _ p] show ?thesis by simp
qed

lemma number_step_ok:
  "number l = Inr l1 \<Longrightarrow> start l < current l \<Longrightarrow>
     current l \<le> length (source l) \<Longrightarrow> step_ok l l1"
proof -
  assume r: "number l = Inr l1" and p: "start l < current l"
    "current l \<le> length (source l)"
  from r obtain c0 where i: "index (source l) (start l) = Inr c0"
    by (auto simp: number_def split: sum.splits)
  note r' = r [unfolded number_def i sum.case]
  let ?hex = "c0 = CHR ''0'' \<and> current l < length (source l)
             \<and> (peek l = CHR ''x'' \<or> peek l = CHR ''X'')"
  let ?bin = "c0 = CHR ''0'' \<and> current l < length (source l)
             \<and> (peek l = CHR ''b'' \<or> peek l = CHR ''B'')"
  let ?oct = "c0 = CHR ''0'' \<and> current l < length (source l)
             \<and> (peek l = CHR ''o'' \<or> peek l = CHR ''O'')"
  consider (hex) "?hex" | (bin) "\<not> ?hex" "?bin" | (oct) "\<not> ?hex" "\<not> ?bin" "?oct"
    | (dec) "\<not> ?hex" "\<not> ?bin" "\<not> ?oct"
    by blast
  then show ?thesis
  proof cases
    case hex
    from r' [unfolded if_P [OF hex]] p show ?thesis by (rule prefixed_step_ok)
  next
    case bin
    from r' [unfolded if_not_P [OF bin(1)] if_P [OF bin(2)]] p show ?thesis
      by (rule prefixed_step_ok)
  next
    case oct
    from r' [unfolded if_not_P [OF oct(1)] if_not_P [OF oct(2)] if_P [OF oct(3)]] p
    show ?thesis by (rule prefixed_step_ok)
  next
    case dec
    from r' [unfolded if_not_P [OF dec(1)] if_not_P [OF dec(2)] if_not_P [OF dec(3)]] p
    show ?thesis by (rule numberDecimal_step_ok)
  qed
qed



lemma keywords_map_good: "keywords_map w = Some ty \<Longrightarrow> good_kind ty"
proof -
  assume "keywords_map w = Some ty"
  then have "(w, ty) \<in> set
     [(''and'', TOKEN_AND),
      (''break'', TOKEN_BREAK),
      (''continue'', TOKEN_CONTINUE),
      (''case'', TOKEN_CASE),
      (''default'', TOKEN_DEFAULT),
      (''do'', TOKEN_DO),
      (''else'', TOKEN_ELSE),
      (''elseif'', TOKEN_ELSEIF),
      (''end'', TOKEN_END),
      (''false'', TOKEN_FALSE),
      (''for'', TOKEN_FOR),
      (''function'', TOKEN_FUNCTION),
      (''global'', TOKEN_GLOBAL),
      (''goto'', TOKEN_GOTO),
      (''if'', TOKEN_IF),
      (''in'', TOKEN_IN),
      (''local'', TOKEN_LOCAL),
      (''nil'', TOKEN_NIL),
      (''not'', TOKEN_NOT),
      (''or'', TOKEN_OR),
      (''repeat'', TOKEN_REPEAT),
      (''return'', TOKEN_RETURN),
      (''switch'', TOKEN_SWITCH),
      (''then'', TOKEN_THEN),
      (''true'', TOKEN_TRUE),
      (''until'', TOKEN_UNTIL),
      (''while'', TOKEN_WHILE)]"
    unfolding keywords_map_def by (rule map_of_SomeD)
  then show ?thesis by (auto simp: good_kind_def token_defs)
qed


lemma identifier_tok_step_ok:
  "identifier_tok l = Inr l1 \<Longrightarrow> start l < current l \<Longrightarrow>
     current l \<le> length (source l) \<Longrightarrow> step_ok l l1"
proof -
  assume r: "identifier_tok l = Inr l1" and p: "start l < current l"
    "current l \<le> length (source l)"
  from r obtain n la w where wa: "whileAdvance (\<lambda>l n. isAlphaNumeric (peek l)) l 0 = Inr (n, la)"
    and t: "addToken (case keywords_map w of Some tokenType \<Rightarrow> tokenType | None \<Rightarrow> TOKEN_IDENT) la
        = Inr l1"
    unfolding identifier_tok_def by (auto split: sum.splits)
  have "good_kind (case keywords_map w of Some tokenType \<Rightarrow> tokenType | None \<Rightarrow> TOKEN_IDENT)"
    by (auto split: option.splits dest: keywords_map_good)
  from addToken_step_ok [OF t whileAdvance_moved [OF wa] this p] show ?thesis .
qed

lemma good_kind_all [simp]:
  "good_kind TOKEN_NUMBER" "good_kind TOKEN_STRING" "good_kind TOKEN_TEMPLATE_STRING"
  "good_kind TOKEN_IDENT" "good_kind TOKEN_TRUE" "good_kind TOKEN_FALSE" "good_kind TOKEN_NIL"
  "good_kind TOKEN_AND" "good_kind TOKEN_BREAK" "good_kind TOKEN_CONTINUE"
  "good_kind TOKEN_CASE" "good_kind TOKEN_DEFAULT" "good_kind TOKEN_DO" "good_kind TOKEN_ELSE"
  "good_kind TOKEN_ELSEIF" "good_kind TOKEN_END" "good_kind TOKEN_FOR"
  "good_kind TOKEN_FUNCTION" "good_kind TOKEN_GLOBAL" "good_kind TOKEN_GOTO"
  "good_kind TOKEN_IF" "good_kind TOKEN_IN" "good_kind TOKEN_LOCAL" "good_kind TOKEN_NOT"
  "good_kind TOKEN_OR" "good_kind TOKEN_REPEAT" "good_kind TOKEN_RETURN"
  "good_kind TOKEN_SWITCH" "good_kind TOKEN_THEN" "good_kind TOKEN_UNTIL"
  "good_kind TOKEN_WHILE" "good_kind TOKEN_PLUS" "good_kind TOKEN_MINUS" "good_kind TOKEN_STAR"
  "good_kind TOKEN_SLASH" "good_kind TOKEN_PERCENT" "good_kind TOKEN_CARET"
  "good_kind TOKEN_HASH" "good_kind TOKEN_EQ" "good_kind TOKEN_NEQ" "good_kind TOKEN_LT"
  "good_kind TOKEN_GT" "good_kind TOKEN_LE" "good_kind TOKEN_GE" "good_kind TOKEN_ASSIGN"
  "good_kind TOKEN_LPAREN" "good_kind TOKEN_RPAREN" "good_kind TOKEN_LBRACE"
  "good_kind TOKEN_RBRACE" "good_kind TOKEN_LBRACKET" "good_kind TOKEN_RBRACKET"
  "good_kind TOKEN_SEMICOLON" "good_kind TOKEN_COLON" "good_kind TOKEN_DOUBLECOLON"
  "good_kind TOKEN_COMMA" "good_kind TOKEN_DOT" "good_kind TOKEN_DOTDOT"
  "good_kind TOKEN_DOTDOTDOT" "good_kind TOKEN_QUESTION_DOT" "good_kind TOKEN_DOUBLE_QUESTION"
  "good_kind TOKEN_PLUS_ASSIGN" "good_kind TOKEN_MINUS_ASSIGN" "good_kind TOKEN_STAR_ASSIGN"
  "good_kind TOKEN_SLASH_ASSIGN" "good_kind TOKEN_PERCENT_ASSIGN"
  "good_kind TOKEN_DOTDOT_ASSIGN" "good_kind TOKEN_ERROR"
  by (simp_all add: good_kind_def token_defs)


lemma plain_step_ok:
  "addToken ty l = Inr l' \<Longrightarrow> good_kind ty \<Longrightarrow> start l < current l \<Longrightarrow>
     current l \<le> length (source l) \<Longrightarrow> step_ok l l'"
  by (rule addToken_step_ok [OF _ moved_refl])

lemma two_way_step_ok:
  "(let (m, l2) = match ch l in if m then addToken A l2 else addToken B l2) = Inr l' \<Longrightarrow>
     good_kind A \<Longrightarrow> good_kind B \<Longrightarrow> start l < current l \<Longrightarrow>
     current l \<le> length (source l) \<Longrightarrow> step_ok l l'"
  by (auto simp: Let_def split: prod.splits if_splits dest!: match_moved
      elim: addToken_step_ok)

lemma neq_step_ok:
  "(let (m, l2) = match ch l in if m then addToken A l2 else Inl (e l2)) = Inr l' \<Longrightarrow>
     good_kind A \<Longrightarrow> start l < current l \<Longrightarrow>
     current l \<le> length (source l) \<Longrightarrow> step_ok l l'"
  by (auto simp: Let_def split: prod.splits if_splits dest!: match_moved
      elim: addToken_step_ok)

lemma minus_step_ok:
  "(let (m, l2) = match ch l in
     if m then comment l2
     else (let (m', l3) = match ch' l2 in
           if m' then addToken A l3 else addToken B l3)) = Inr l' \<Longrightarrow>
     good_kind A \<Longrightarrow> good_kind B \<Longrightarrow> start l < current l \<Longrightarrow>
     current l \<le> length (source l) \<Longrightarrow> step_ok l l'"
proof -
  assume r: "(let (m, l2) = match ch l in
     if m then comment l2
     else (let (m', l3) = match ch' l2 in
           if m' then addToken A l3 else addToken B l3)) = Inr l'"
    and g: "good_kind A" "good_kind B"
    and p: "start l < current l" "current l \<le> length (source l)"
  obtain m l2 where m1: "match ch l = (m, l2)" by (cases "match ch l")
  note M1 = match_moved [OF m1]
  show ?thesis
  proof (cases m)
    case True
    with r m1 have "comment l2 = Inr l'" by simp
    from moved_trans [OF M1 comment_moved [OF this]] p show ?thesis by (rule moved_step_ok)
  next
    case False
    obtain m' l3 where m2: "match ch' l2 = (m', l3)" by (cases "match ch' l2")
    note M2 = moved_trans [OF M1 match_moved [OF m2]]
    from r m1 m2 False have "addToken (if m' then A else B) l3 = Inr l'"
      by (simp split: if_splits)
    from addToken_step_ok [OF this M2 _ p] g show ?thesis by simp
  qed
qed

lemma dot_step_ok:
  "(let (m, l2) = match ch l in
     if m then
       (let (m', l3) = match ch' l2 in
        if m' then addToken A l3
        else
          (let (m'', l4) = match ch'' l3 in
           if m'' then addToken B l4 else addToken C l4))
     else if isDigit (peek l2) then number l2
     else addToken D l2) = Inr l' \<Longrightarrow>
     good_kind A \<Longrightarrow> good_kind B \<Longrightarrow> good_kind C \<Longrightarrow> good_kind D \<Longrightarrow>
     start l < current l \<Longrightarrow> current l \<le> length (source l) \<Longrightarrow> step_ok l l'"
proof -
  assume r: "(let (m, l2) = match ch l in
     if m then
       (let (m', l3) = match ch' l2 in
        if m' then addToken A l3
        else
          (let (m'', l4) = match ch'' l3 in
           if m'' then addToken B l4 else addToken C l4))
     else if isDigit (peek l2) then number l2
     else addToken D l2) = Inr l'"
    and g: "good_kind A" "good_kind B" "good_kind C" "good_kind D"
    and p: "start l < current l" "current l \<le> length (source l)"
  obtain m l2 where m1: "match ch l = (m, l2)" by (cases "match ch l")
  note M1 = match_moved [OF m1]
  show ?thesis
  proof (cases m)
    case False
    have eq: "l2 = l" using m1 False by (auto simp: match_def split: if_splits)
    show ?thesis
    proof (cases "isDigit (peek l2)")
      case True
      with r m1 False have "number l = Inr l'" by (simp add: eq)
      then show ?thesis using p by (rule number_step_ok)
    next
      case nd: False
      with r m1 False have "addToken D l2 = Inr l'" by simp
      from addToken_step_ok [OF this M1 g(4) p] show ?thesis .
    qed
  next
    case True
    obtain m' l3 where m2: "match ch' l2 = (m', l3)" by (cases "match ch' l2")
    note M2 = moved_trans [OF M1 match_moved [OF m2]]
    show ?thesis
    proof (cases m')
      case t2: True
      with r m1 m2 True have "addToken A l3 = Inr l'" by simp
      from addToken_step_ok [OF this M2 g(1) p] show ?thesis .
    next
      case f2: False
      obtain m'' l4 where m3: "match ch'' l3 = (m'', l4)" by (cases "match ch'' l3")
      note M3 = moved_trans [OF M2 match_moved [OF m3]]
      from r m1 m2 m3 True f2 have "addToken (if m'' then B else C) l4 = Inr l'"
        by (simp split: if_splits)
      from addToken_step_ok [OF this M3 _ p] g show ?thesis by simp
    qed
  qed
qed

lemma question_step_ok:
  "(let (m, l2) = match ch l in
     if m then addToken A l2
     else (let (m', l3) = match ch' l2 in
           if m' then addToken B l3 else Inl (e l3))) = Inr l' \<Longrightarrow>
     good_kind A \<Longrightarrow> good_kind B \<Longrightarrow> start l < current l \<Longrightarrow>
     current l \<le> length (source l) \<Longrightarrow> step_ok l l'"
proof -
  assume r: "(let (m, l2) = match ch l in
     if m then addToken A l2
     else (let (m', l3) = match ch' l2 in
           if m' then addToken B l3 else Inl (e l3))) = Inr l'"
    and g: "good_kind A" "good_kind B"
    and p: "start l < current l" "current l \<le> length (source l)"
  obtain m l2 where m1: "match ch l = (m, l2)" by (cases "match ch l")
  note M1 = match_moved [OF m1]
  show ?thesis
  proof (cases m)
    case True
    with r m1 have "addToken A l2 = Inr l'" by simp
    from addToken_step_ok [OF this M1 g(1) p] show ?thesis .
  next
    case False
    obtain m' l3 where m2: "match ch' l2 = (m', l3)" by (cases "match ch' l2")
    note M2 = moved_trans [OF M1 match_moved [OF m2]]
    from r m1 m2 False have "addToken B l3 = Inr l'" by (simp split: if_splits)
    from addToken_step_ok [OF this M2 g(2) p] show ?thesis .
  qed
qed

lemma newline_step_ok:
  "Inr (l\<lparr>line := line l + 1, column := k\<rparr>) = Inr l' \<Longrightarrow> start l < current l \<Longrightarrow>
     current l \<le> length (source l) \<Longrightarrow> step_ok l l'"
  by (auto simp: step_ok_def)

lemma skip_step_ok:
  "Inr l = (Inr l' :: error + Lexer) \<Longrightarrow> start l < current l \<Longrightarrow>
     current l \<le> length (source l) \<Longrightarrow> step_ok l l'"
  by (auto simp: step_ok_def)

lemmas branch_step_ok =
  plain_step_ok two_way_step_ok neq_step_ok minus_step_ok dot_step_ok question_step_ok
  newline_step_ok skip_step_ok string_lit_step_ok templateString_step_ok
  multilineString_step_ok number_step_ok identifier_tok_step_ok

lemma scanToken_step_ok:
  assumes r: "scanToken l = Inr l'" and s: "start l = current l"
  shows "source l' = source l \<and> start l' = start l \<and> startColumn l' = startColumn l \<and>
         current l < current l' \<and> current l' \<le> length (source l) \<and> line l \<le> line l' \<and>
         (tokens l' = tokens l \<or> (\<exists>t. tokens l' = tokens l @ [t] \<and> good_kind (Type t)))"
proof -
  from r obtain c la where a: "advance l = Inr (c, la)"
    by (auto simp: scanToken_def split: sum.splits)
  note A = advance_Inr [OF a]
  have p: "start la < current la" "current la \<le> length (source la)"
    using A s by auto
  note r' = r [unfolded scanToken_def a sum.case prod.case]
  have "step_ok la l'"
    using r' p
    apply (simp only: split: if_split_asm)
    apply (erule branch_step_ok; (simp; fail))+
    apply simp
    done
  with A s show ?thesis by (auto simp: step_ok_def)
qed



section \<open>Tokenize\<close>

text \<open>
  The loop of \<open>Tokenize\<close>. Every step moves the cursor forward (\<open>scanToken_step_ok\<close>),
  which is the termination argument.
\<close>

function tokenizeLoop :: "Lexer \<Rightarrow> error + Lexer" where
  "tokenizeLoop l =
     (if \<not> isAtEnd l then
        (case scanToken (l\<lparr>start := current l, startColumn := column l\<rparr>) of
           Inl e \<Rightarrow> Inl e
         | Inr l1 \<Rightarrow> tokenizeLoop l1)
      else Inr l)"
  by pat_completeness auto
termination
  by (relation "measure (\<lambda>l. length (source l) - current l)")
     (auto dest!: scanToken_step_ok)

declare tokenizeLoop.simps [simp del]

definition Tokenize :: "Lexer \<Rightarrow> error + Token list" where
  "Tokenize l =
     (case tokenizeLoop l of
        Inl e \<Rightarrow> Inl e
      | Inr l1 \<Rightarrow>
          Inr (tokens l1 @ [\<lparr>Type = TOKEN_EOF, Value = [], Line = line l1, Column = column l1\<rparr>]))"

definition tokenize :: "string \<Rightarrow> error + Token list" where
  "tokenize src = Tokenize (NewLexer src)"

section \<open>The shape of the token sequence\<close>

lemma tokenizeLoop_good:
  "tokenizeLoop l = Inr l' \<Longrightarrow> \<forall>t\<in>set (tokens l). good_kind (Type t) \<Longrightarrow>
     \<forall>t\<in>set (tokens l'). good_kind (Type t)"
proof (induction l rule: tokenizeLoop.induct)
  case (1 l)
  show ?case
  proof (cases "isAtEnd l")
    case True
    with "1.prems" show ?thesis by (simp add: tokenizeLoop.simps [of l])
  next
    case False
    let ?l0 = "l\<lparr>start := current l, startColumn := column l\<rparr>"
    from "1.prems"(1) False obtain l1 where s: "scanToken ?l0 = Inr l1"
      and r: "tokenizeLoop l1 = Inr l'"
      by (auto simp: tokenizeLoop.simps [of l] split: sum.splits)
    from scanToken_step_ok [OF s] "1.prems"(2)
    have "\<forall>t\<in>set (tokens l1). good_kind (Type t)" by auto
    from "1.IH" [OF False s r this] show ?thesis .
  qed
qed

text \<open>
  Claim C10. Whenever \<open>Tokenize\<close> succeeds, the sequence it returns is not empty, its
  last token is \<open>TOKEN_EOF\<close>, no token before the last is \<open>TOKEN_EOF\<close>, and no token
  is \<open>TOKEN_NEWLINE\<close>: a newline only counts the line.
\<close>

theorem tokenize_ends_with_single_eof:
  "tokenize src = Inr ts \<Longrightarrow>
     ts \<noteq> [] \<and> Type (last ts) = TOKEN_EOF \<and>
     (\<forall>t \<in> set (butlast ts). Type t \<noteq> TOKEN_EOF) \<and>
     (\<forall>t \<in> set ts. Type t \<noteq> TOKEN_NEWLINE)"
proof -
  assume r: "tokenize src = Inr ts"
  then obtain l' where t: "tokenizeLoop (NewLexer src) = Inr l'"
    and ts: "ts = tokens l' @ [\<lparr>Type = TOKEN_EOF, Value = [], Line = line l', Column = column l'\<rparr>]"
    by (auto simp: tokenize_def Tokenize_def split: sum.splits)
  have "\<forall>t\<in>set (tokens l'). good_kind (Type t)"
    by (rule tokenizeLoop_good [OF t]) (simp add: NewLexer_def)
  then show ?thesis by (auto simp: ts good_kind_def token_defs)
qed

text \<open>The theorem at the source text \<open>x\<close>.\<close>

theorem tokenize_ends_with_single_eof_witness:
  "\<exists>ts. tokenize ''x'' = Inr ts \<and> ts \<noteq> [] \<and> Type (last ts) = TOKEN_EOF \<and>
     list_all (\<lambda>t. Type t \<noteq> TOKEN_EOF) (butlast ts) \<and>
     list_all (\<lambda>t. Type t \<noteq> TOKEN_NEWLINE) ts"
proof -
  have e: "tokenize ''x'' =
      Inr [\<lparr>Type = TOKEN_IDENT, Value = ''x'', Line = 1, Column = 1\<rparr>,
           \<lparr>Type = TOKEN_EOF, Value = [], Line = 1, Column = 2\<rparr>]"
    by code_simp
  from tokenize_ends_with_single_eof [OF e] e show ?thesis
    by (simp add: list_all_iff)
qed

section \<open>Progress of the scanner\<close>

text \<open>
  The loop of \<open>Tokenize\<close> with a bound on the number of scanning steps: \<open>None\<close>
  when the bound is used up while the loop condition still holds.
\<close>

fun tokenizeFuel :: "nat \<Rightarrow> Lexer \<Rightarrow> (error + Lexer) option" where
  "tokenizeFuel 0 l = (if \<not> isAtEnd l then None else Some (Inr l))"
| "tokenizeFuel (Suc n) l =
     (if \<not> isAtEnd l then
        (case scanToken (l\<lparr>start := current l, startColumn := column l\<rparr>) of
           Inl e \<Rightarrow> Some (Inl e)
         | Inr l1 \<Rightarrow> tokenizeFuel n l1)
      else Some (Inr l))"

lemma tokenizeFuel_enough:
  "length (source l) - current l \<le> n \<Longrightarrow> tokenizeFuel n l = Some (tokenizeLoop l)"
proof (induction n arbitrary: l)
  case 0
  then show ?case by (simp add: tokenizeLoop.simps [of l] isAtEnd_def)
next
  case (Suc n)
  show ?case
  proof (cases "isAtEnd l")
    case True
    then show ?thesis by (simp add: tokenizeLoop.simps [of l])
  next
    case False
    show ?thesis
    proof (cases "scanToken (l\<lparr>start := current l, startColumn := column l\<rparr>)")
      case (Inl e)
      with False show ?thesis by (simp add: tokenizeLoop.simps [of l])
    next
      case (Inr l1)
      from scanToken_step_ok [OF Inr] Suc.prems
      have "length (source l1) - current l1 \<le> n" by auto
      from Suc.IH [OF this] Inr False show ?thesis by (simp add: tokenizeLoop.simps [of l])
    qed
  qed
qed

lemma scanToken_blank:
  assumes "\<not> isAtEnd l"
    and "source l ! current l \<in> {CHR '' '', CHR 0x0D, CHR 0x09, CHR 0x0A}"
    and "scanToken l = Inr l'"
  shows "tokens l' = tokens l"
  using assms
  by (auto simp: scanToken_def advance_def isAtEnd_def)

lemma scanToken_comment:
  assumes "\<not> isAtEnd l"
    and "source l ! current l = CHR ''-''" and "peekNext l = CHR ''-''"
    and "scanToken l = Inr l'"
  shows "tokens l' = tokens l"
proof -
  let ?l1 = "l\<lparr>current := Suc (current l), column := Suc (column l)\<rparr>"
  let ?l2 = "l\<lparr>current := Suc (Suc (current l)), column := Suc (Suc (column l))\<rparr>"
  have m: "match (CHR ''-'') ?l1 = (True, ?l2)"
    using assms(1,3) by (auto simp: match_def peekNext_def isAtEnd_def split: if_splits)
  from assms have "comment ?l2 = Inr l'"
    by (simp add: scanToken_def advance_def isAtEnd_def m)
  from comment_moved [OF this] show ?thesis by (simp add: moved_def)
qed

text \<open>
  Claim C9. A scanning step that \<open>Tokenize\<close> makes (with \<open>start\<close> set to the cursor)
  and that returns moves the cursor forward by at least one byte, stays inside the source,
  and adds at most one token; on a blank, a newline or a comment it adds none. So the loop
  of \<open>Tokenize\<close> ends: as many steps as there are bytes left are enough.
\<close>

theorem scan_step_advances_and_tokenize_terminates:
  "(\<not> isAtEnd l \<and> scanToken (l\<lparr>start := current l, startColumn := column l\<rparr>) = Inr l' \<longrightarrow>
      source l' = source l \<and> current l < current l' \<and> current l' \<le> length (source l) \<and>
      (tokens l' = tokens l \<or> (\<exists>t. tokens l' = tokens l @ [t])) \<and>
      (source l ! current l \<in> {CHR '' '', CHR 0x0D, CHR 0x09, CHR 0x0A} \<longrightarrow>
         tokens l' = tokens l) \<and>
      (source l ! current l = CHR ''-'' \<and> peekNext l = CHR ''-'' \<longrightarrow> tokens l' = tokens l))
   \<and> tokenizeFuel (length (source l) - current l) l = Some (tokenizeLoop l)"
proof (intro conjI impI)
  assume a: "\<not> isAtEnd l \<and> scanToken (l\<lparr>start := current l, startColumn := column l\<rparr>) = Inr l'"
  let ?l0 = "l\<lparr>start := current l, startColumn := column l\<rparr>"
  from a have s: "scanToken ?l0 = Inr l'" and ne: "\<not> isAtEnd ?l0"
    by (simp_all add: isAtEnd_def)
  note S = scanToken_step_ok [OF s]
  from S show "source l' = source l" by simp
  from S show "current l < current l'" by simp
  from S show "current l' \<le> length (source l)" by simp
  from S show "tokens l' = tokens l \<or> (\<exists>t. tokens l' = tokens l @ [t])" by auto
  {
    assume "source l ! current l \<in> {CHR '' '', CHR 0x0D, CHR 0x09, CHR 0x0A}"
    with scanToken_blank [OF ne _ s] show "tokens l' = tokens l" by simp
  }
  {
    assume "source l ! current l = CHR ''-'' \<and> peekNext l = CHR ''-''"
    moreover have "peekNext ?l0 = peekNext l" by (simp add: peekNext_def)
    ultimately show "tokens l' = tokens l"
      using scanToken_comment [OF ne _ _ s] by simp
  }
next
  show "tokenizeFuel (length (source l) - current l) l = Some (tokenizeLoop l)"
    by (rule tokenizeFuel_enough) simp
qed

text \<open>The theorem at the source text \<open>-- x\<close>, a comment that runs to the end.\<close>

theorem scan_step_advances_and_tokenize_terminates_witness:
  "\<not> isAtEnd (NewLexer ''-- x'') \<and>
   scanToken ((NewLexer ''-- x'')\<lparr>start := 0, startColumn := 1\<rparr>)
     = Inr ((NewLexer ''-- x'')\<lparr>current := 4, column := 5, startColumn := 1\<rparr>) \<and>
   current (NewLexer ''-- x'')
     < current ((NewLexer ''-- x'')\<lparr>current := 4, column := 5, startColumn := 1\<rparr>) \<and>
   tokenizeFuel 4 (NewLexer ''-- x'') = Some (tokenizeLoop (NewLexer ''-- x''))"
proof -
  have n: "\<not> isAtEnd (NewLexer ''-- x'')" by code_simp
  have s: "scanToken ((NewLexer ''-- x'')\<lparr>start := 0, startColumn := 1\<rparr>)
     = Inr ((NewLexer ''-- x'')\<lparr>current := 4, column := 5, startColumn := 1\<rparr>)" by code_simp
  have s': "scanToken ((NewLexer ''-- x'')\<lparr>start := current (NewLexer ''-- x''),
                startColumn := column (NewLexer ''-- x'')\<rparr>)
     = Inr ((NewLexer ''-- x'')\<lparr>current := 4, column := 5, startColumn := 1\<rparr>)"
    using s by (simp add: NewLexer_def)
  note T = scan_step_advances_and_tokenize_terminates
         [of "NewLexer ''-- x''" "(NewLexer ''-- x'')\<lparr>current := 4, column := 5, startColumn := 1\<rparr>"]
  from T n s' have c: "current (NewLexer ''-- x'')
     < current ((NewLexer ''-- x'')\<lparr>current := 4, column := 5, startColumn := 1\<rparr>)"
    by blast
  from T
  have "tokenizeFuel (length (source (NewLexer ''-- x'')) - current (NewLexer ''-- x''))
           (NewLexer ''-- x'') = Some (tokenizeLoop (NewLexer ''-- x''))" by blast
  moreover have "length (source (NewLexer ''-- x'')) - current (NewLexer ''-- x'') = 4"
    by (simp add: NewLexer_def)
  ultimately have "tokenizeFuel 4 (NewLexer ''-- x'') = Some (tokenizeLoop (NewLexer ''-- x''))"
    by (simp only:)
  with n s c show ?thesis by blast
qed

section \<open>The digraphs that start with \<open>!\<close>, \<open>~\<close> and \<open>?\<close>\<close>

lemma match_next:
  "current l < length (source l) \<Longrightarrow> ch \<noteq> CHR 0x00 \<Longrightarrow>
   match ch (l\<lparr>current := Suc (current l), column := Suc (column l)\<rparr>) =
     (if peekNext l = ch
      then (True, l\<lparr>current := Suc (Suc (current l)), column := Suc (Suc (column l))\<rparr>)
      else (False, l\<lparr>current := Suc (current l), column := Suc (column l)\<rparr>))"
  by (auto simp: match_def peekNext_def isAtEnd_def)

lemma scanToken_bang:
  assumes "current l < length (source l)" and "start l = current l"
    and "source l ! current l = CHR ''!''"
  shows "scanToken l =
     (if peekNext l = CHR ''=''
      then Inr (addTokenValue TOKEN_NEQ ''!=''
                  (l\<lparr>current := current l + 2, column := column l + 2\<rparr>))
      else Inl (LexError (line l)
                  (''unexpected character '' @ [CHR 0x27] @ ''!'' @ [CHR 0x27])))"
proof (cases "peekNext l = CHR ''=''")
  case True
  then have n: "Suc (current l) < length (source l)" "source l ! Suc (current l) = CHR ''=''"
    by (auto simp: peekNext_def split: if_splits)
  have "take 2 (drop (current l) (source l)) = ''!=''"
    using assms n by (simp add: take_Suc_conv_app_nth numeral_2_eq_2)
  with True assms n show ?thesis
    by (simp add: scanToken_def advance_def match_next addToken_def slice_def)
next
  case False
  with assms show ?thesis
    by (simp add: scanToken_def advance_def match_next)
qed

lemma scanToken_tilde:
  assumes "current l < length (source l)" and "start l = current l"
    and "source l ! current l = CHR ''~''"
  shows "scanToken l =
     (if peekNext l = CHR ''=''
      then Inr (addTokenValue TOKEN_NEQ ''~=''
                  (l\<lparr>current := current l + 2, column := column l + 2\<rparr>))
      else Inl (LexError (line l)
                  (''unexpected character '' @ [CHR 0x27] @ ''~'' @ [CHR 0x27]
                       @ '' (did you mean '' @ [CHR 0x27] @ ''~='' @ [CHR 0x27] @ ''?)'')))"
proof (cases "peekNext l = CHR ''=''")
  case True
  then have n: "Suc (current l) < length (source l)" "source l ! Suc (current l) = CHR ''=''"
    by (auto simp: peekNext_def split: if_splits)
  have "take 2 (drop (current l) (source l)) = ''~=''"
    using assms n by (simp add: take_Suc_conv_app_nth numeral_2_eq_2)
  with True assms n show ?thesis
    by (simp add: scanToken_def advance_def match_next addToken_def slice_def)
next
  case False
  with assms show ?thesis
    by (simp add: scanToken_def advance_def match_next)
qed

lemma scanToken_question:
  assumes "current l < length (source l)" and "start l = current l"
    and "source l ! current l = CHR ''?''"
  shows "scanToken l =
     (if peekNext l = CHR ''.''
      then Inr (addTokenValue TOKEN_QUESTION_DOT ''?.''
                  (l\<lparr>current := current l + 2, column := column l + 2\<rparr>))
      else if peekNext l = CHR ''?''
      then Inr (addTokenValue TOKEN_DOUBLE_QUESTION ''??''
                  (l\<lparr>current := current l + 2, column := column l + 2\<rparr>))
      else Inl (LexError (line l)
                  (''unexpected character '' @ [CHR 0x27] @ ''?'' @ [CHR 0x27])))"
proof -
  consider (d) "peekNext l = CHR ''.''" | (q) "peekNext l = CHR ''?''"
    | (n) "peekNext l \<noteq> CHR ''.''" "peekNext l \<noteq> CHR ''?''" by blast
  then show ?thesis
  proof cases
    case d
    then have n: "Suc (current l) < length (source l)" "source l ! Suc (current l) = CHR ''.''"
      by (auto simp: peekNext_def split: if_splits)
    have "take 2 (drop (current l) (source l)) = ''?.''"
      using assms n by (simp add: take_Suc_conv_app_nth numeral_2_eq_2)
    with d assms n show ?thesis
      by (simp add: scanToken_def advance_def match_next addToken_def slice_def)
  next
    case q
    then have n: "Suc (current l) < length (source l)" "source l ! Suc (current l) = CHR ''?''"
      by (auto simp: peekNext_def split: if_splits)
    have "take 2 (drop (current l) (source l)) = ''??''"
      using assms n by (simp add: take_Suc_conv_app_nth numeral_2_eq_2)
    with q assms n show ?thesis
      by (simp add: scanToken_def advance_def match_next addToken_def slice_def)
  next
    case n
    with assms show ?thesis
      by (simp add: scanToken_def advance_def match_next)
  qed
qed

lemma Tokenize_scan_error:
  "\<not> isAtEnd l \<Longrightarrow> scanToken (l\<lparr>start := current l, startColumn := column l\<rparr>) = Inl e \<Longrightarrow>
     Tokenize l = Inl e"
  by (simp add: Tokenize_def tokenizeLoop.simps [of l])

text \<open>
  Claim C6. At a \<open>!\<close> or a \<open>~\<close> the scanning step is an error with the current line
  exactly when the next byte is not \<open>=\<close>, and with \<open>=\<close> both give one token of kind
  \<open>TOKEN_NEQ\<close>; at a \<open>?\<close> it is an error exactly when the next byte is neither \<open>.\<close>
  nor \<open>?\<close>. \<open>Tokenize\<close> returns that error.
\<close>

theorem bare_digraph_starts_rejected:
  assumes "current l < length (source l)" and "start l = current l"
  shows
    "(source l ! current l = CHR ''!'' \<longrightarrow>
        scanToken l =
          (if peekNext l = CHR ''=''
           then Inr (addTokenValue TOKEN_NEQ ''!=''
                       (l\<lparr>current := current l + 2, column := column l + 2\<rparr>))
           else Inl (LexError (line l)
                  (''unexpected character '' @ [CHR 0x27] @ ''!'' @ [CHR 0x27])))) \<and>
     (source l ! current l = CHR ''~'' \<longrightarrow>
        scanToken l =
          (if peekNext l = CHR ''=''
           then Inr (addTokenValue TOKEN_NEQ ''~=''
                       (l\<lparr>current := current l + 2, column := column l + 2\<rparr>))
           else Inl (LexError (line l)
                  (''unexpected character '' @ [CHR 0x27] @ ''~'' @ [CHR 0x27]
                       @ '' (did you mean '' @ [CHR 0x27] @ ''~='' @ [CHR 0x27] @ ''?)'')))) \<and>
     (source l ! current l = CHR ''?'' \<longrightarrow>
        scanToken l =
          (if peekNext l = CHR ''.''
           then Inr (addTokenValue TOKEN_QUESTION_DOT ''?.''
                       (l\<lparr>current := current l + 2, column := column l + 2\<rparr>))
           else if peekNext l = CHR ''?''
           then Inr (addTokenValue TOKEN_DOUBLE_QUESTION ''??''
                       (l\<lparr>current := current l + 2, column := column l + 2\<rparr>))
           else Inl (LexError (line l)
                  (''unexpected character '' @ [CHR 0x27] @ ''?'' @ [CHR 0x27])))) \<and>
     (source l ! current l = CHR ''!'' \<and> peekNext l \<noteq> CHR ''='' \<longrightarrow>
        Tokenize l = Inl (LexError (line l)
                  (''unexpected character '' @ [CHR 0x27] @ ''!'' @ [CHR 0x27]))) \<and>
     (source l ! current l = CHR ''~'' \<and> peekNext l \<noteq> CHR ''='' \<longrightarrow>
        Tokenize l = Inl (LexError (line l)
                  (''unexpected character '' @ [CHR 0x27] @ ''~'' @ [CHR 0x27]
                       @ '' (did you mean '' @ [CHR 0x27] @ ''~='' @ [CHR 0x27] @ ''?)''))) \<and>
     (source l ! current l = CHR ''?'' \<and> peekNext l \<noteq> CHR ''.'' \<and> peekNext l \<noteq> CHR ''?'' \<longrightarrow>
        Tokenize l = Inl (LexError (line l)
                  (''unexpected character '' @ [CHR 0x27] @ ''?'' @ [CHR 0x27])))"
proof -
  let ?l0 = "l\<lparr>start := current l, startColumn := column l\<rparr>"
  have p: "current ?l0 < length (source ?l0)" "start ?l0 = current ?l0" "\<not> isAtEnd l"
    using assms by (simp_all add: isAtEnd_def)
  have pn: "peekNext ?l0 = peekNext l" by (simp add: peekNext_def)
  have b: "source l ! current l = CHR ''!'' \<and> peekNext l \<noteq> CHR ''='' \<longrightarrow>
        Tokenize l = Inl (LexError (line l)
                  (''unexpected character '' @ [CHR 0x27] @ ''!'' @ [CHR 0x27]))"
    using scanToken_bang [OF p(1,2)] pn by (auto intro!: Tokenize_scan_error [OF p(3)])
  have t: "source l ! current l = CHR ''~'' \<and> peekNext l \<noteq> CHR ''='' \<longrightarrow>
        Tokenize l = Inl (LexError (line l)
                  (''unexpected character '' @ [CHR 0x27] @ ''~'' @ [CHR 0x27]
                       @ '' (did you mean '' @ [CHR 0x27] @ ''~='' @ [CHR 0x27] @ ''?)''))"
    using scanToken_tilde [OF p(1,2)] pn by (auto intro!: Tokenize_scan_error [OF p(3)])
  have q: "source l ! current l = CHR ''?'' \<and> peekNext l \<noteq> CHR ''.'' \<and> peekNext l \<noteq> CHR ''?'' \<longrightarrow>
        Tokenize l = Inl (LexError (line l)
                  (''unexpected character '' @ [CHR 0x27] @ ''?'' @ [CHR 0x27]))"
    using scanToken_question [OF p(1,2)] pn by (auto intro!: Tokenize_scan_error [OF p(3)])
  from scanToken_bang [OF assms] scanToken_tilde [OF assms] scanToken_question [OF assms] b t q
  show ?thesis by blast
qed

text \<open>
  The theorem at the source text \<open>!\<close>; and \<open>a != b\<close> and \<open>a ~= b\<close> give the same
  kinds of tokens.
\<close>

theorem bare_digraph_starts_rejected_witness:
  "current (NewLexer ''!'') < length (source (NewLexer ''!'')) \<and>
   start (NewLexer ''!'') = current (NewLexer ''!'') \<and>
   source (NewLexer ''!'') ! current (NewLexer ''!'') = CHR ''!'' \<and>
   peekNext (NewLexer ''!'') \<noteq> CHR ''='' \<and>
   Tokenize (NewLexer ''!'') = Inl (LexError 1
                  (''unexpected character '' @ [CHR 0x27] @ ''!'' @ [CHR 0x27])) \<and>
   map_sum id (map Type) (tokenize ''a != b'') = map_sum id (map Type) (tokenize ''a ~= b'')"
proof -
  have h: "current (NewLexer ''!'') < length (source (NewLexer ''!''))"
    "start (NewLexer ''!'') = current (NewLexer ''!'')"
    "source (NewLexer ''!'') ! current (NewLexer ''!'') = CHR ''!''"
    "peekNext (NewLexer ''!'') \<noteq> CHR ''=''"
    by (simp_all add: NewLexer_def peekNext_def)
  have l1: "line (NewLexer ''!'') = 1" by (simp add: NewLexer_def)
  from bare_digraph_starts_rejected [OF h(1,2)] h(3,4)
  have "Tokenize (NewLexer ''!'') = Inl (LexError (line (NewLexer ''!''))
                  (''unexpected character '' @ [CHR 0x27] @ ''!'' @ [CHR 0x27]))"
    by blast
  then have "Tokenize (NewLexer ''!'') = Inl (LexError 1
                  (''unexpected character '' @ [CHR 0x27] @ ''!'' @ [CHR 0x27]))"
    by (simp only: l1)
  moreover have "map_sum id (map Type) (tokenize ''a != b'') = map_sum id (map Type) (tokenize ''a ~= b'')" by code_simp
  ultimately show ?thesis using h by blast
qed

end
